theory Spec2Isabelle
  imports Main "HOL-Library.Word"
begin

unbundle bit_operations_syntax

section \<open>Bytes, slices and struct packing\<close>

text \<open>
  A Python \<open>bytes\<close> or \<open>bytearray\<close> value is a list of 8-bit words. Every exception the
  two builders can raise is a value of \<open>error\<close>; a function that can raise returns
  \<open>error + 'a\<close> with \<open>Inl\<close> for the exception.
\<close>

type_synonym byte = "8 word"

datatype error =
    IndexError
  | StructError
  | UnicodeEncodeError
  | ZeroDivisionError
  | DirectoryFull string
  | SysExit nat

definition ebind :: "error + 'a \<Rightarrow> ('a \<Rightarrow> error + 'b) \<Rightarrow> error + 'b" where
  "ebind m f = (case m of Inl e \<Rightarrow> Inl e | Inr x \<Rightarrow> f x)"

text \<open>\<open>bytearray(n)\<close>, \<open>bytes(n)\<close> and \<open>b'\x00' * n\<close>: n zero bytes.\<close>

definition zeros :: "nat \<Rightarrow> byte list" where
  "zeros n = replicate n 0"

text \<open>
  \<open>xs[i:j]\<close> and \<open>xs[i:j] = ys\<close> for non-negative bounds. Python clamps both bounds to
  the length, so an assignment whose bounds lie beyond the end appends \<open>ys\<close>: the
  bytearray grows. \<open>take\<close> and \<open>drop\<close> clamp the same way.
\<close>

definition slice :: "'a list \<Rightarrow> nat \<Rightarrow> nat \<Rightarrow> 'a list" where
  "slice xs i j = take (j - i) (drop i xs)"

definition slice_set :: "'a list \<Rightarrow> nat \<Rightarrow> nat \<Rightarrow> 'a list \<Rightarrow> 'a list" where
  "slice_set xs i j ys = take i xs @ ys @ drop (max i j) xs"

text \<open>\<open>xs[i] = v\<close> on a list or bytearray raises IndexError out of range.\<close>

definition list_set :: "'a list \<Rightarrow> nat \<Rightarrow> 'a \<Rightarrow> error + 'a list" where
  "list_set xs i v = (if i < length xs then Inr (xs[i := v]) else Inl IndexError)"

text \<open>
  \<open>struct.pack\<close> with the little-endian unsigned formats \<open><B\<close>, \<open><H\<close>, \<open><L\<close> and \<open><I\<close>
  (1, 2, 4 and 4 bytes): \<open>struct.error\<close> when the value does not fit, and for
  \<open>pack_into\<close> also when the field does not fit into the buffer.
\<close>

fun le_bytes :: "nat \<Rightarrow> int \<Rightarrow> byte list" where
  "le_bytes 0 v = []"
| "le_bytes (Suc n) v = word_of_int v # le_bytes n (v div 256)"

definition struct_pack :: "nat \<Rightarrow> int \<Rightarrow> error + byte list" where
  "struct_pack w v = (if 0 \<le> v \<and> v < 2 ^ (8 * w) then Inr (le_bytes w v) else Inl StructError)"

definition pack_into :: "nat \<Rightarrow> byte list \<Rightarrow> nat \<Rightarrow> int \<Rightarrow> error + byte list" where
  "pack_into w buf off v =
     ebind (struct_pack w v) (\<lambda>bs.
       if off + w \<le> length buf then Inr (slice_set buf off (off + w) bs) else Inl StructError)"

text \<open>A run of \<open>pack_into\<close> calls on one buffer, in the order of the source.\<close>

fun pack_fields :: "byte list \<Rightarrow> (nat \<times> nat \<times> int) list \<Rightarrow> error + byte list" where
  "pack_fields buf [] = Inr buf"
| "pack_fields buf ((w, off, v) # fs) = ebind (pack_into w buf off v) (\<lambda>buf'. pack_fields buf' fs)"

text \<open>A bytes literal, and \<open>str.encode('ascii')\<close>, which raises on a character above 127.\<close>

definition byte_of_char :: "char \<Rightarrow> byte" where
  "byte_of_char c = of_nat (of_char c)"

definition bytes_of :: "string \<Rightarrow> byte list" where
  "bytes_of s = map byte_of_char s"

definition encode_ascii :: "string \<Rightarrow> error + byte list" where
  "encode_ascii s =
     (if list_all (\<lambda>c. (of_char c :: nat) < 128) s then Inr (bytes_of s) else Inl UnicodeEncodeError)"

section \<open>File names\<close>

text \<open>
  File names are strings of 8-bit characters (Latin-1). \<open>str.upper\<close> moves the ASCII and
  the Latin-1 small letters to their capitals and turns the sharp s (223) into \<open>SS\<close>; the
  capitals of the characters 181 and 255 lie outside Latin-1, so these two stay as they are:
  like their capitals, they are not ASCII. \<open>os.path.splitext\<close> and \<open>os.path.basename\<close>
  follow \<open>posixpath\<close>: the extension starts at the last dot after the last slash, unless
  only dots precede it.
\<close>

definition upper :: "string \<Rightarrow> string" where
  "upper s = concat (map (\<lambda>c. let n = (of_char c :: nat) in
                        if 97 \<le> n \<and> n \<le> 122 then [char_of (n - 32)]
                        else if n = 223 then ''SS''
                        else if 224 \<le> n \<and> n \<le> 254 \<and> n \<noteq> 247 then [char_of (n - 32)]
                        else [c]) s)"

fun rfind :: "'a \<Rightarrow> 'a list \<Rightarrow> int" where
  "rfind c [] = - 1"
| "rfind c (x # xs) =
     (let r = rfind c xs in if 0 \<le> r then r + 1 else if x = c then 0 else - 1)"

definition splitext :: "string \<Rightarrow> string \<times> string" where
  "splitext p =
     (let sepIndex = rfind (CHR ''/'') p;
          dotIndex = rfind (CHR ''.'') p
      in if sepIndex < dotIndex \<and>
            list_ex (\<lambda>c. c \<noteq> CHR ''.'') (slice p (nat (sepIndex + 1)) (nat dotIndex))
         then (take (nat dotIndex) p, drop (nat dotIndex) p)
         else (p, []))"

definition basename :: "string \<Rightarrow> string" where
  "basename p = drop (nat (rfind (CHR ''/'') p + 1)) p"

definition ljust :: "nat \<Rightarrow> string \<Rightarrow> string" where
  "ljust n s = s @ replicate (n - length s) (CHR '' '')"

text \<open>The first lines of \<open>add_file_to_directory\<close>: the 11 bytes of the 8.3 name.\<close>

definition fat_filename_of :: "string \<Rightarrow> error + byte list" where
  "fat_filename_of filename =
     (case splitext (upper filename) of (name, ext) \<Rightarrow>
        encode_ascii (ljust 8 (take 8 name) @
                      (if ext \<noteq> [] then ljust 3 (slice ext 1 4) else ''   '')))"

section \<open>build\_disk.py: the class Fat32DiskBuilder\<close>

record builder =
  size_mb :: nat
  size_bytes :: nat
  sector_size :: nat
  sectors_per_cluster :: nat
  reserved_sectors :: nat
  fat_count :: nat
  root_cluster :: nat
  total_sectors :: nat
  sectors_per_fat :: nat
  fat_start_sector :: nat
  data_start_sector :: nat
  bytes_per_cluster :: nat
  disk_image :: "byte list"
  fat_table :: "nat list"
  next_free_cluster :: nat

text \<open>\<open>__init__(size_mb)\<close>; \<open>main\<close> calls it with 32.\<close>

definition Fat32DiskBuilder :: "nat \<Rightarrow> builder" where
  "Fat32DiskBuilder mb =
     \<lparr> size_mb = mb,
       size_bytes = mb * 1024 * 1024,
       sector_size = 512,
       sectors_per_cluster = 8,
       reserved_sectors = 32,
       fat_count = 2,
       root_cluster = 2,
       total_sectors = (mb * 1024 * 1024) div 512,
       sectors_per_fat = 256,
       fat_start_sector = 32,
       data_start_sector = 32 + 2 * 256,
       bytes_per_cluster = 512 * 8,
       disk_image = zeros (mb * 1024 * 1024),
       fat_table = replicate (256 * 512 div 4) 0,
       next_free_cluster = 3 \<rparr>"

text \<open>
  The wall clock read by \<open>datetime.now()\<close> is an input of the model: every directory
  insertion is given the reading it makes.
\<close>

record datetime =
  year :: nat
  month :: nat
  day :: nat
  hour :: nat
  minute :: nat
  second :: nat

definition create_boot_sector :: "builder \<Rightarrow> error + builder" where
  "create_boot_sector b =
     (let s0 = zeros 512;
          s1 = slice_set s0 0 3 [0xEB, 0x58, 0x90];
          s2 = slice_set s1 3 11 (bytes_of ''NumOS   '')
      in ebind (pack_fields s2
           [(2, 11, int (sector_size b)),
            (1, 13, int (sectors_per_cluster b)),
            (2, 14, int (reserved_sectors b)),
            (1, 16, int (fat_count b)),
            (2, 17, 0),
            (2, 19, 0),
            (1, 21, 0xF8),
            (2, 22, 0),
            (2, 24, 63),
            (2, 26, 255),
            (4, 28, 0),
            (4, 32, int (total_sectors b)),
            (4, 36, int (sectors_per_fat b)),
            (2, 40, 0),
            (2, 42, 0),
            (4, 44, int (root_cluster b)),
            (2, 48, 1),
            (2, 50, 6)]) (\<lambda>s3.
         let s4 = fold (\<lambda>i s. s[i := 0]) [52..<64] s3
         in ebind (pack_fields s4
              [(1, 64, 0x80),
               (1, 65, 0),
               (1, 66, 0x29),
               (4, 67, 0x12345678)]) (\<lambda>s5.
            let s6 = slice_set s5 71 82 (bytes_of ''NumOS FAT32'');
                s7 = slice_set s6 82 90 (bytes_of ''FAT32   '')
            in ebind (pack_into 2 s7 510 0xAA55) (\<lambda>boot_sector.
                 Inr (b\<lparr>disk_image := slice_set (disk_image b) 0 512 boot_sector\<rparr>)))))"

definition create_fsinfo :: "builder \<Rightarrow> error + builder" where
  "create_fsinfo b =
     ebind (pack_fields (zeros 512)
        [(4, 0, 0x41615252),
         (4, 484, 0x61417272),
         (4, 488, 0xFFFFFFFF),
         (4, 492, 3),
         (2, 510, 0xAA55)]) (\<lambda>fsinfo.
       Inr (b\<lparr>disk_image := slice_set (disk_image b) 512 1024 fsinfo\<rparr>))"

definition initialize_fat :: "builder \<Rightarrow> error + builder" where
  "initialize_fat b =
     ebind (list_set (fat_table b) 0 (0x0FFFFF00 OR 0xF8)) (\<lambda>f0.
     ebind (list_set f0 1 0x0FFFFFFF) (\<lambda>f1.
     ebind (list_set f1 2 0x0FFFFFFF) (\<lambda>f2.
       Inr (b\<lparr>fat_table := f2\<rparr>))))"

text \<open>The loop \<open>while len(fat_data) % sector_size != 0: fat_data.append(0)\<close>.\<close>

function pad_to_sector :: "nat \<Rightarrow> byte list \<Rightarrow> byte list" where
  "pad_to_sector ss fat_data =
     (if 0 < ss \<and> length fat_data mod ss \<noteq> 0 then pad_to_sector ss (fat_data @ [0]) else fat_data)"
  by pat_completeness auto
termination
proof (relation "measure (\<lambda>(ss, d). (ss - length d mod ss) mod ss)")
  show "wf (measure (\<lambda>(ss, d). (ss - length d mod ss) mod ss))"
    by simp
next
  fix ss :: nat and fat_data :: "byte list"
  assume a: "0 < ss \<and> length fat_data mod ss \<noteq> 0"
  let ?r = "length fat_data mod ss"
  have r: "0 < ?r" "?r < ss"
    using a by simp_all
  have old: "(ss - ?r) mod ss = ss - ?r"
    using r by simp
  have new: "(ss - Suc (length fat_data) mod ss) mod ss < ss - ?r"
  proof (cases "Suc ?r = ss")
    case True
    then have "Suc (length fat_data) mod ss = 0"
      by (simp add: mod_Suc)
    then show ?thesis
      using r by simp
  next
    case False
    then have "Suc (length fat_data) mod ss = Suc ?r"
      by (simp add: mod_Suc)
    moreover have "(ss - Suc ?r) mod ss = ss - Suc ?r"
      using r by simp
    ultimately show ?thesis
      using r by simp
  qed
  show "((ss, fat_data @ [0]), (ss, fat_data)) \<in> measure (\<lambda>(ss, d). (ss - length d mod ss) mod ss)"
    using old new by simp
qed

fun pack_entries :: "nat list \<Rightarrow> error + byte list" where
  "pack_entries [] = Inr []"
| "pack_entries (entry # es) =
     ebind (struct_pack 4 (int entry)) (\<lambda>bs.
     ebind (pack_entries es) (\<lambda>rest. Inr (bs @ rest)))"

definition write_fat_tables :: "builder \<Rightarrow> error + builder" where
  "write_fat_tables b =
     ebind (pack_entries (fat_table b)) (\<lambda>packed.
       if sector_size b = 0 then Inl ZeroDivisionError
       else
         let fat_data = pad_to_sector (sector_size b) packed;
             img = fold (\<lambda>i img.
                     let start_offset = (fat_start_sector b + i * sectors_per_fat b) * sector_size b;
                         end_offset = start_offset + length fat_data
                     in slice_set img start_offset end_offset fat_data)
                   [0..<fat_count b] (disk_image b)
         in Inr (b\<lparr>disk_image := img\<rparr>))"

definition cluster_to_sector :: "builder \<Rightarrow> nat \<Rightarrow> nat" where
  "cluster_to_sector b cluster = data_start_sector b + (cluster - 2) * sectors_per_cluster b"

definition allocate_cluster :: "builder \<Rightarrow> error + (nat \<times> builder)" where
  "allocate_cluster b =
     (let cluster = next_free_cluster b
      in ebind (list_set (fat_table b) cluster 0x0FFFFFFF) (\<lambda>f.
           Inr (cluster, b\<lparr>fat_table := f, next_free_cluster := next_free_cluster b + 1\<rparr>)))"

definition create_root_directory :: "builder \<Rightarrow> builder" where
  "create_root_directory b =
     (let root_data = zeros (bytes_per_cluster b);
          volume_entry = (slice_set (zeros 32) 0 11 (bytes_of ''NumOS FAT32''))[11 := 0x08];
          root_data = slice_set root_data 0 32 volume_entry;
          root_sector = cluster_to_sector b (root_cluster b);
          start_offset = root_sector * sector_size b;
          end_offset = start_offset + bytes_per_cluster b
      in b\<lparr>disk_image := slice_set (disk_image b) start_offset end_offset root_data\<rparr>)"

text \<open>
  \<open>add_file_to_directory\<close>, in the order of the source: the allocation loop
  \<open>for i in range(1, clusters_needed)\<close>, the copy of one chunk, the slot scan
  \<open>for i in range(0, len(dir_data), 32)\<close>, the 32-byte entry, and the method itself.
  Every call in the repository leaves \<open>directory_cluster\<close> at its default, the root
  cluster; the model fixes it there.
\<close>

fun alloc_loop :: "nat list \<Rightarrow> nat \<Rightarrow> builder \<Rightarrow> error + builder" where
  "alloc_loop [] current_cluster b = Inr b"
| "alloc_loop (i # rest) current_cluster b =
     ebind (allocate_cluster b) (\<lambda>(next_cluster, b1).
     ebind (list_set (fat_table b1) current_cluster next_cluster) (\<lambda>f.
       alloc_loop rest next_cluster (b1\<lparr>fat_table := f\<rparr>)))"

definition write_chunk :: "builder \<Rightarrow> nat \<Rightarrow> byte list \<Rightarrow> nat \<Rightarrow> byte list \<Rightarrow> byte list" where
  "write_chunk b first_cluster file_data i img =
     (let cluster = first_cluster + i;
          start_offset = cluster_to_sector b cluster * sector_size b;
          chunk_start = i * bytes_per_cluster b;
          chunk_end = min ((i + 1) * bytes_per_cluster b) (length file_data);
          chunk_data = slice file_data chunk_start chunk_end;
          chunk_data = chunk_data @ zeros (bytes_per_cluster b - length chunk_data)
      in slice_set img start_offset (start_offset + bytes_per_cluster b) chunk_data)"

function find_empty_entry :: "byte list \<Rightarrow> nat \<Rightarrow> nat option" where
  "find_empty_entry dir_data i =
     (if i < length dir_data
      then (if dir_data ! i = 0x00 \<or> dir_data ! i = 0xE5 then Some i
            else find_empty_entry dir_data (i + 32))
      else None)"
  by pat_completeness auto
termination
  by (relation "measure (\<lambda>(dir_data, i). length dir_data - i)") auto

definition make_entry :: "byte list \<Rightarrow> nat \<Rightarrow> nat \<Rightarrow> datetime \<Rightarrow> error + byte list" where
  "make_entry fat_filename first_cluster file_size now =
     (let entry = (slice_set (zeros 32) 0 11 fat_filename)[11 := 0x20];
          time_val = push_bit 11 (int (hour now)) OR push_bit 5 (int (minute now))
                     OR int (second now div 2);
          date_val = push_bit 9 (int (year now) - 1980) OR push_bit 5 (int (month now))
                     OR int (day now)
      in pack_fields entry
           [(2, 14, time_val),
            (2, 16, date_val),
            (2, 18, date_val),
            (2, 20, drop_bit 16 (int first_cluster)),
            (2, 22, time_val),
            (2, 24, date_val),
            (2, 26, int first_cluster AND 0xFFFF),
            (4, 28, int file_size)])"

definition insert_entry ::
  "string \<Rightarrow> byte list \<Rightarrow> byte list \<Rightarrow> nat \<Rightarrow> nat \<Rightarrow> datetime \<Rightarrow> error + byte list" where
  "insert_entry filename dir_data fat_filename first_cluster file_size now =
     (case find_empty_entry dir_data 0 of
        None \<Rightarrow> Inl (DirectoryFull filename)
      | Some i \<Rightarrow>
          ebind (make_entry fat_filename first_cluster file_size now) (\<lambda>entry.
            let d = slice_set dir_data i (i + 32) entry
            in Inr (if i + 32 < length d \<and> d ! (i + 32) \<noteq> 0xE5 then d[i + 32 := 0x00] else d)))"

definition add_file_to_directory ::
  "builder \<Rightarrow> string \<Rightarrow> byte list \<Rightarrow> datetime \<Rightarrow> error + builder" where
  "add_file_to_directory b filename file_data now =
     (let directory_cluster = root_cluster b
      in ebind (fat_filename_of filename) (\<lambda>fat_filename.
         if bytes_per_cluster b = 0 then Inl ZeroDivisionError
         else
           let file_size = length file_data;
               clusters_needed = (file_size + bytes_per_cluster b - 1) div bytes_per_cluster b
           in ebind
                (if file_size > 0
                 then ebind (allocate_cluster b) (\<lambda>(first_cluster, b1).
                      ebind (alloc_loop [1..<clusters_needed] first_cluster b1) (\<lambda>b2.
                        Inr (first_cluster, b2)))
                 else Inr (0, b))
                (\<lambda>(first_cluster, b2).
                   let img = fold (write_chunk b first_cluster file_data) [0..<clusters_needed]
                               (disk_image b2);
                       dir_sector = cluster_to_sector b directory_cluster;
                       dir_offset = dir_sector * sector_size b;
                       dir_data = slice img dir_offset (dir_offset + bytes_per_cluster b)
                   in ebind (insert_entry filename dir_data fat_filename first_cluster file_size now)
                        (\<lambda>dir_data'.
                           Inr (b2\<lparr>disk_image :=
                                  slice_set img dir_offset (dir_offset + bytes_per_cluster b)
                                    dir_data'\<rparr>)))))"

text \<open>
  A local file is its path, its content (\<open>None\<close> when \<open>os.path.exists\<close> is false) and the
  clock reading of its directory insertion.
\<close>

type_synonym local_file = "string \<times> byte list option \<times> datetime"

definition add_file :: "builder \<Rightarrow> local_file \<Rightarrow> string option \<Rightarrow> error + builder" where
  "add_file b f disk_filename =
     (case f of (local_path, content, now) \<Rightarrow>
        (case content of
           None \<Rightarrow> Inr b
         | Some file_data \<Rightarrow>
             add_file_to_directory b
               (case disk_filename of None \<Rightarrow> basename local_path | Some n \<Rightarrow> n)
               file_data now))"

definition save :: "builder \<Rightarrow> byte list" where
  "save b = disk_image b"

definition unlines :: "string list \<Rightarrow> string" where
  "unlines ls = concat (map (\<lambda>l. l @ [CHR 0x0A]) ls)"

definition config_data :: "byte list" where
  "config_data = bytes_of (unlines
     [''# NumOS Configuration File'',
      ''kernel_debug=1'',
      ''heap_size=16777216'',
      ''timer_freq=100'',
      ''vga_mode=text'',
      [],
      ''# Boot options'',
      ''auto_mount_fat32=1'',
      ''show_boot_info=1''])"

definition readme_data :: "byte list" where
  "readme_data = bytes_of (unlines
     [''NumOS - 64-bit Operating System'',
      [],
      ''This is a demonstration FAT32 filesystem containing:'',
      ''- KERNEL.BIN: The NumOS kernel binary'',
      ''- CONFIG.TXT: System configuration file'',
      ''- README.TXT: This file'',
      [],
      ''Commands to try:'',
      ''- ls: List files'',
      ''- cat filename: Display file contents'',
      ''- help: Show all available commands'',
      [],
      ''Enjoy exploring NumOS!''])"

text \<open>The loop \<open>for file_path in additional_files: builder.add_file(file_path)\<close>.\<close>

fun add_files :: "builder \<Rightarrow> local_file list \<Rightarrow> error + builder" where
  "add_files b [] = Inr b"
| "add_files b (f # fs) = ebind (add_file b f None) (\<lambda>b'. add_files b' fs)"

text \<open>
  \<open>main\<close> after its argument parsing: the kernel file, the additional files, and the
  clock readings of the two built-in text files. The result is what \<open>save\<close> writes.
\<close>

definition main :: "local_file \<Rightarrow> local_file list \<Rightarrow> datetime \<Rightarrow> datetime \<Rightarrow> error + byte list" where
  "main kernel_file additional_files config_now readme_now =
     ebind (create_boot_sector (Fat32DiskBuilder 32)) (\<lambda>b1.
     ebind (create_fsinfo b1) (\<lambda>b2.
     ebind (initialize_fat b2) (\<lambda>b3.
     ebind (add_file (create_root_directory b3) kernel_file (Some ''KERNEL.BIN'')) (\<lambda>b4.
     ebind (add_files b4 additional_files) (\<lambda>b5.
     ebind (add_file_to_directory b5 ''CONFIG.TXT'' config_data config_now) (\<lambda>b6.
     ebind (add_file_to_directory b6 ''README.TXT'' readme_data readme_now) (\<lambda>b7.
     ebind (write_fat_tables b7) (\<lambda>b8.
       Inr (save b8)))))))))"

section \<open>create\_disk\_fixed.py\<close>

definition DISK_SIZE_MB :: nat where "DISK_SIZE_MB = 32"
definition BYTES_PER_SECTOR :: nat where "BYTES_PER_SECTOR = 512"
definition SECTORS_PER_CLUSTER :: nat where "SECTORS_PER_CLUSTER = 8"
definition RESERVED_SECTORS :: nat where "RESERVED_SECTORS = 32"
definition NUM_FATS :: nat where "NUM_FATS = 2"
definition BYTES_PER_CLUSTER :: nat where "BYTES_PER_CLUSTER = SECTORS_PER_CLUSTER * BYTES_PER_SECTOR"

text \<open>The local \<open>fat_size = 160\<close> of \<open>create_boot_sector\<close> and of \<open>main\<close>.\<close>

definition fat_size :: nat where "fat_size = 160"

definition fixed_create_boot_sector :: "error + byte list" where
  "fixed_create_boot_sector =
     (let boot = zeros 512;
          boot = slice_set boot 0 3 [0xEB, 0x58, 0x90];
          boot = slice_set boot 3 11 (bytes_of ''NUMOS1.0'');
          total_sectors = (DISK_SIZE_MB * 1024 * 1024) div BYTES_PER_SECTOR
      in ebind (pack_fields boot
           [(2, 11, int BYTES_PER_SECTOR),
            (1, 13, int SECTORS_PER_CLUSTER),
            (2, 14, int RESERVED_SECTORS),
            (1, 16, int NUM_FATS),
            (2, 17, 0),
            (2, 19, 0),
            (1, 21, 0xF8),
            (2, 22, 0),
            (2, 24, 63),
            (2, 26, 16),
            (4, 28, 0),
            (4, 32, int total_sectors),
            (4, 36, int fat_size),
            (2, 40, 0),
            (2, 42, 0),
            (4, 44, 2),
            (2, 48, 1),
            (2, 50, 6)]) (\<lambda>boot.
         let boot = slice_set boot 52 64 (zeros 12)
         in ebind (pack_fields boot
              [(1, 64, 0x80),
               (1, 65, 0),
               (1, 66, 0x29),
               (4, 67, 0x12345678)]) (\<lambda>boot.
            let boot = slice_set boot 71 82 (bytes_of ''NUMOS DISK '');
                boot = slice_set boot 82 90 (bytes_of ''FAT32   '');
                boot = slice_set boot 510 512 [0x55, 0xAA]
            in Inr boot)))"

definition fixed_create_fsinfo :: "error + byte list" where
  "fixed_create_fsinfo =
     pack_fields (zeros 512)
       [(4, 0, 0x41615252),
        (4, 484, 0x61417272),
        (4, 488, 0xFFFFFFFF),
        (4, 492, 2),
        (4, 508, 0xAA550000)]"

text \<open>The loop \<open>for i in range(clusters_needed)\<close> of \<open>create_fat\<close>, and \<open>create_fat\<close>.\<close>

fun fat_chain_loop :: "nat \<Rightarrow> nat list \<Rightarrow> byte list \<Rightarrow> error + byte list" where
  "fat_chain_loop clusters_needed [] fat = Inr fat"
| "fat_chain_loop clusters_needed (i # rest) fat =
     (let cluster_idx = 6 + i
      in ebind (if i = clusters_needed - 1
                then pack_into 4 fat (cluster_idx * 4) 0x0FFFFFFF
                else pack_into 4 fat (cluster_idx * 4) (int (cluster_idx + 1)))
           (fat_chain_loop clusters_needed rest))"

definition create_fat :: "nat \<Rightarrow> nat \<Rightarrow> nat \<Rightarrow> error + byte list" where
  "create_fat total_secs fat_sz file_size =
     ebind (pack_fields (zeros (fat_sz * BYTES_PER_SECTOR))
        [(4, 0, 0x0FFFFFF8),
         (4, 4, 0x0FFFFFFF),
         (4, 8, 0x0FFFFFFF),
         (4, 12, 0x0FFFFFFF),
         (4, 16, 0x0FFFFFFF),
         (4, 20, 0x0FFFFFFF)]) (\<lambda>fat.
       if file_size > 0
       then let clusters_needed = (file_size + BYTES_PER_CLUSTER - 1) div BYTES_PER_CLUSTER
            in fat_chain_loop clusters_needed [0..<clusters_needed] fat
       else Inr fat)"

definition create_directory_entry :: "string \<Rightarrow> byte \<Rightarrow> nat \<Rightarrow> nat \<Rightarrow> error + byte list" where
  "create_directory_entry name attr cluster sz =
     ebind (encode_ascii (ljust 11 name)) (\<lambda>enc.
       let entry = slice_set (zeros 32) 0 11 (take 11 enc);
           entry = entry[11 := attr];
           entry = entry[12 := 0];
           entry = entry[13 := 0];
           entry = slice_set entry 14 16 [0x00, 0x00];
           entry = slice_set entry 16 18 [0x21, 0x00];
           entry = slice_set entry 18 20 [0x21, 0x00]
       in ebind (pack_into 2 entry 20 (drop_bit 16 (int cluster) AND 0xFFFF)) (\<lambda>entry.
          let entry = slice_set entry 22 24 [0x00, 0x00];
              entry = slice_set entry 24 26 [0x21, 0x00]
          in ebind (pack_into 2 entry 26 (int cluster AND 0xFFFF)) (\<lambda>entry.
             pack_into 4 entry 28 (int sz))))"

definition DIR_ATTR :: byte where "DIR_ATTR = 0x10"
definition FILE_ATTR :: byte where "FILE_ATTR = 0x20"

definition fixed_create_root_directory :: "error + byte list" where
  "fixed_create_root_directory =
     (let cluster = zeros BYTES_PER_CLUSTER
      in ebind (create_directory_entry ''.          '' DIR_ATTR 2 0) (\<lambda>e0.
         ebind (create_directory_entry ''..         '' DIR_ATTR 0 0) (\<lambda>e1.
         ebind (create_directory_entry ''INIT       '' DIR_ATTR 3 0) (\<lambda>e2.
         ebind (create_directory_entry ''BIN        '' DIR_ATTR 4 0) (\<lambda>e3.
         ebind (create_directory_entry ''RUN        '' DIR_ATTR 5 0) (\<lambda>e4.
           let cluster = slice_set cluster 0 32 e0;
               cluster = slice_set cluster 32 64 e1;
               cluster = slice_set cluster 64 96 e2;
               cluster = slice_set cluster 96 128 e3;
               cluster = slice_set cluster 128 160 e4
           in Inr cluster))))))"

definition create_init_directory :: "nat \<Rightarrow> error + byte list" where
  "create_init_directory elf_size =
     (let cluster = zeros BYTES_PER_CLUSTER
      in ebind (create_directory_entry ''.          '' DIR_ATTR 3 0) (\<lambda>e0.
         let cluster = slice_set cluster 0 32 e0
         in ebind (create_directory_entry ''..         '' DIR_ATTR 2 0) (\<lambda>e1.
            let cluster = slice_set cluster 32 64 e1
            in if elf_size > 0
               then ebind (create_directory_entry ''SHELL      '' FILE_ATTR 6 elf_size) (\<lambda>e2.
                      Inr (slice_set cluster 64 96 e2))
               else Inr cluster)))"

definition create_empty_directory :: "nat \<Rightarrow> error + byte list" where
  "create_empty_directory cluster_num =
     (let cluster = zeros BYTES_PER_CLUSTER
      in ebind (create_directory_entry ''.          '' DIR_ATTR cluster_num 0) (\<lambda>e0.
         let cluster = slice_set cluster 0 32 e0
         in ebind (create_directory_entry ''..         '' DIR_ATTR 2 0) (\<lambda>e1.
              Inr (slice_set cluster 32 64 e1))))"

text \<open>
  \<open>main\<close> of create\_disk\_fixed.py after its usage check. \<open>elf_file\<close> is the optional
  second argument, \<open>elf_content\<close> the content of that path when \<open>os.path.isfile\<close> holds.
  The output file is written front to back, so it is the concatenation of the writes.
\<close>

definition fixed_main :: "string option \<Rightarrow> byte list option \<Rightarrow> error + byte list" where
  "fixed_main elf_file elf_content =
     (let given = (case elf_file of None \<Rightarrow> False | Some p \<Rightarrow> p \<noteq> [])
      in if given \<and> elf_content = None then Inl (SysExit 1)
         else
           let elf_data = (if given then elf_content else None);
               elf_size = (case elf_data of None \<Rightarrow> 0 | Some d \<Rightarrow> length d);
               total_sectors = (DISK_SIZE_MB * 1024 * 1024) div BYTES_PER_SECTOR
           in ebind fixed_create_boot_sector (\<lambda>boot.
              ebind fixed_create_fsinfo (\<lambda>fsinfo.
              ebind fixed_create_boot_sector (\<lambda>backup.
              let reserved = concat (map (\<lambda>i. if i = 6 then backup else zeros BYTES_PER_SECTOR)
                                       [2..<RESERVED_SECTORS])
              in ebind (create_fat total_sectors fat_size elf_size) (\<lambda>fat_data.
                 ebind fixed_create_root_directory (\<lambda>root.
                 ebind (create_init_directory elf_size) (\<lambda>init.
                 ebind (create_empty_directory 4) (\<lambda>bin.
                 ebind (create_empty_directory 5) (\<lambda>run.
                   let clusters_needed = (elf_size + BYTES_PER_CLUSTER - 1) div BYTES_PER_CLUSTER;
                       padded_size = clusters_needed * BYTES_PER_CLUSTER;
                       elf_padded = (case elf_data of
                                       None \<Rightarrow> []
                                     | Some d \<Rightarrow> if d \<noteq> [] then d @ zeros (padded_size - elf_size) else []);
                       written = boot @ fsinfo @ reserved @ concat (replicate NUM_FATS fat_data)
                                 @ root @ init @ bin @ run @ elf_padded;
                       current_pos = length written;
                       total_size = total_sectors * BYTES_PER_SECTOR;
                       remaining = int total_size - int current_pos;
                       chunk_size = 1024 * 1024;
                       chunks = nat remaining div chunk_size;
                       last_chunk = nat remaining mod chunk_size
                   in Inr (if remaining > 0
                           then written @ concat (replicate chunks (zeros chunk_size))
                                @ (if last_chunk > 0 then zeros last_chunk else [])
                           else written))))))))))"

section \<open>Notions used to state the properties\<close>

text \<open>
  The data clusters of a volume and the number of sectors one FAT needs for a 32-bit
  entry per cluster, \<open>ceil(clusters * 4 / bytesPerSector)\<close>.
\<close>

definition data_clusters :: "nat \<Rightarrow> nat \<Rightarrow> nat \<Rightarrow> nat" where
  "data_clusters n_sectors data_start spc = (n_sectors - data_start) div spc"

definition fat_sectors_needed :: "nat \<Rightarrow> nat \<Rightarrow> nat" where
  "fat_sectors_needed clusters bps = (clusters * 4 + bps - 1) div bps"

definition cluster_offset :: "builder \<Rightarrow> nat \<Rightarrow> nat" where
  "cluster_offset b cluster = cluster_to_sector b cluster * sector_size b"

definition read_cluster :: "builder \<Rightarrow> nat \<Rightarrow> byte list" where
  "read_cluster b cluster =
     slice (disk_image b) (cluster_offset b cluster) (cluster_offset b cluster + bytes_per_cluster b)"

definition is_eoc :: "nat \<Rightarrow> bool" where
  "is_eoc v = (0x0FFFFFF8 \<le> v)"

fun fat_chain :: "(nat \<Rightarrow> nat option) \<Rightarrow> nat \<Rightarrow> nat \<Rightarrow> nat list option" where
  "fat_chain entry 0 c = None"
| "fat_chain entry (Suc fuel) c =
     (case entry c of
        None \<Rightarrow> None
      | Some v \<Rightarrow> if is_eoc v then Some [c] else map_option ((#) c) (fat_chain entry fuel v))"

definition table_entry :: "nat list \<Rightarrow> nat \<Rightarrow> nat option" where
  "table_entry fat c = (if c < length fat then Some (fat ! c) else None)"

definition clusters_for :: "builder \<Rightarrow> byte list \<Rightarrow> nat" where
  "clusters_for b file_data = (length file_data + bytes_per_cluster b - 1) div bytes_per_cluster b"

definition builder_inv :: "builder \<Rightarrow> bool" where
  "builder_inv b \<longleftrightarrow>
     sector_size b = 512 \<and> sectors_per_cluster b = 8 \<and> reserved_sectors b = 32 \<and>
     fat_count b = 2 \<and> root_cluster b = 2 \<and> sectors_per_fat b = 256 \<and>
     fat_start_sector b = 32 \<and> data_start_sector b = 544 \<and> bytes_per_cluster b = 4096 \<and>
     length (fat_table b) = 32768 \<and> 3 \<le> next_free_cluster b \<and>
     cluster_offset b (next_free_cluster b) \<le> length (disk_image b)"

definition padded_payload :: "builder \<Rightarrow> byte list \<Rightarrow> byte list" where
  "padded_payload b file_data =
     file_data @ zeros (clusters_for b file_data * bytes_per_cluster b - length file_data)"

definition free_slot :: "byte list \<Rightarrow> nat \<Rightarrow> bool" where
  "free_slot dir_data i = (i < length dir_data \<and> i mod 32 = 0 \<and> (dir_data ! i = 0x00 \<or> dir_data ! i = 0xE5))"

definition now_ok :: "datetime \<Rightarrow> bool" where
  "now_ok now = (1980 \<le> year now \<and> year now < 2108 \<and> month now < 16 \<and> day now < 32 \<and>
                 hour now < 32 \<and> minute now < 64 \<and> second now < 64)"

fun le_value :: "byte list \<Rightarrow> nat" where
  "le_value [] = 0"
| "le_value (x # xs) = unat x + 256 * le_value xs"

definition entry_first_cluster :: "byte list \<Rightarrow> nat" where
  "entry_first_cluster e = le_value (slice e 26 28) + 65536 * le_value (slice e 20 22)"

definition entry_size :: "byte list \<Rightarrow> nat" where
  "entry_size e = le_value (slice e 28 32)"

definition dir_free_from :: "builder \<Rightarrow> nat \<Rightarrow> bool" where
  "dir_free_from b k \<longleftrightarrow> k \<le> 128 \<and> drop (32 * k) (read_cluster b 2) = zeros (4096 - 32 * k)"

definition sample_now :: datetime where
  "sample_now = \<lparr>year = 2026, month = 11, day = 4, hour = 9, minute = 30, second = 0\<rparr>"

definition payload_clusters :: "byte list \<Rightarrow> nat" where
  "payload_clusters file_data = (length file_data + 4096 - 1) div 4096"

definition file_clusters :: "local_file \<Rightarrow> nat" where
  "file_clusters f = (case f of (local_path, content, now) \<Rightarrow>
     (case content of None \<Rightarrow> 0 | Some file_data \<Rightarrow> payload_clusters file_data))"

definition main_inv :: "builder \<Rightarrow> bool" where
  "main_inv b \<longleftrightarrow> builder_inv b \<and> list_all (\<lambda>e. e < 2 ^ 32) (fat_table b) \<and>
     length (disk_image b) = max 33554432 (cluster_offset b (next_free_cluster b)) \<and>
     disk_image b ! 0 = 0xEB \<and> slice (disk_image b) 3072 3584 = zeros 512"

definition total_clusters :: "local_file \<Rightarrow> local_file list \<Rightarrow> nat" where
  "total_clusters kernel_file additional_files =
     file_clusters kernel_file + sum_list (map file_clusters additional_files)
     + payload_clusters config_data + payload_clusters readme_data"

definition fat_entry :: "byte list \<Rightarrow> nat \<Rightarrow> nat option" where
  "fat_entry fat c =
     (if 4 * c + 4 \<le> length fat then Some (le_value (slice fat (4 * c) (4 * c + 4))) else None)"

definition chain_shape :: "(nat \<Rightarrow> nat option) \<Rightarrow> nat \<Rightarrow> nat \<Rightarrow> nat \<Rightarrow> bool" where
  "chain_shape entry fuel first n \<longleftrightarrow>
     (\<exists>cs. fat_chain entry fuel first = Some cs \<and> length cs = n \<and>
        (\<forall>i. i + 1 < n \<longrightarrow> (\<exists>v. entry (cs ! i) = Some v \<and> cs ! i < v \<and> v = cs ! (i + 1))) \<and>
        (\<exists>v. entry (last cs) = Some v \<and> is_eoc v))"

text \<open>A local file that \<open>add_file\<close> can insert: its name encodes and its clock reading packs.\<close>

definition file_ok :: "local_file \<Rightarrow> bool" where
  "file_ok f = (case f of (local_path, content, now) \<Rightarrow>
     now_ok now \<and> \<not> isl (fat_filename_of (basename local_path)))"

text \<open>
  Two builder states that agree in the FAT, the allocation counter and every byte of the
  image outside the root directory cluster (bytes 278528 to 282623).
\<close>

definition agree_outside_root :: "builder \<Rightarrow> builder \<Rightarrow> bool" where
  "agree_outside_root b1 b2 \<longleftrightarrow>
     fat_table b1 = fat_table b2 \<and> next_free_cluster b1 = next_free_cluster b2 \<and>
     length (disk_image b1) = length (disk_image b2) \<and>
     take 278528 (disk_image b1) = take 278528 (disk_image b2) \<and>
     drop 282624 (disk_image b1) = drop 282624 (disk_image b2)"

text \<open>
  The offsets of a 32-byte directory entry that hold a time or a date: creation time and
  date and last access date (14 to 19), last write time and date (22 to 25). Two
  directories agree off the clock when they differ at such offsets only.
\<close>

definition clock_field :: "nat \<Rightarrow> bool" where
  "clock_field q \<longleftrightarrow> (14 \<le> q \<and> q < 20) \<or> (22 \<le> q \<and> q < 26)"

definition agree_off_clock :: "byte list \<Rightarrow> byte list \<Rightarrow> bool" where
  "agree_off_clock d1 d2 \<longleftrightarrow>
     length d1 = length d2 \<and> list_all (\<lambda>p. clock_field (p mod 32) \<or> d1 ! p = d2 ! p) [0..<length d1]"

text \<open>The same input file, path and content, inserted at any two times.\<close>

definition same_file :: "local_file \<Rightarrow> local_file \<Rightarrow> bool" where
  "same_file f1 f2 \<longleftrightarrow> fst f1 = fst f2 \<and> fst (snd f1) = fst (snd f2)"

definition same_but_clock :: "builder \<Rightarrow> builder \<Rightarrow> bool" where
  "same_but_clock b1 b2 \<longleftrightarrow>
     agree_outside_root b1 b2 \<and> agree_off_clock (read_cluster b1 2) (read_cluster b2 2)"

text \<open>A second clock reading, and the last write time an entry records.\<close>

definition later_now :: datetime where
  "later_now = \<lparr>year = 2026, month = 11, day = 5, hour = 10, minute = 31, second = 2\<rparr>"

definition entry_write_time :: "byte list \<Rightarrow> nat" where
  "entry_write_time e = le_value (slice e 22 24)"

section \<open>Properties\<close>

subsection \<open>Auxiliary facts\<close>

lemma ebind_Inr [simp]: "ebind (Inr x) f = f x"
  by (simp add: ebind_def)

lemma ebind_Inl [simp]: "ebind (Inl e) f = Inl e"
  by (simp add: ebind_def)

lemma ebind_eq_Inr: "ebind m f = Inr y \<longleftrightarrow> (\<exists>x. m = Inr x \<and> f x = Inr y)"
  by (cases m) simp_all

lemma length_zeros [simp]: "length (zeros n) = n"
  by (simp add: zeros_def)

lemma nth_zeros [simp]: "i < n \<Longrightarrow> zeros n ! i = 0"
  by (simp add: zeros_def)

lemma take_zeros [simp]: "take k (zeros n) = zeros (min k n)"
  by (simp add: zeros_def)

lemma drop_zeros [simp]: "drop k (zeros n) = zeros (n - k)"
  by (simp add: zeros_def)

lemma zeros_0 [simp]: "zeros 0 = []"
  by (simp add: zeros_def)

lemma zeros_add: "zeros (m + n) = zeros m @ zeros n"
  by (simp add: zeros_def replicate_add)

lemma length_slice [simp]: "length (slice xs i j) = min (j - i) (length xs - i)"
  by (simp add: slice_def)

lemma length_slice_set:
  "length (slice_set xs i j ys) = min i (length xs) + length ys + (length xs - max i j)"
  by (simp add: slice_set_def min_def)

lemma length_slice_set_same [simp]:
  "j \<le> length xs \<Longrightarrow> i + length ys = j \<Longrightarrow> length (slice_set xs i j ys) = length xs"
  by (simp add: length_slice_set)

lemma nth_slice_set_before:
  "k < i \<Longrightarrow> k < length xs \<Longrightarrow> slice_set xs i j ys ! k = xs ! k"
  by (simp add: slice_set_def nth_append)

lemma nth_slice_set_inside:
  "i \<le> length xs \<Longrightarrow> k < length ys \<Longrightarrow> slice_set xs i j ys ! (i + k) = ys ! k"
  by (simp add: slice_set_def nth_append min_def)

lemma take_slice_set:
  "k \<le> i \<Longrightarrow> i \<le> length xs \<Longrightarrow> take k (slice_set xs i j ys) = take k xs"
  by (simp add: slice_set_def min_def)

lemma drop_slice_set:
  "i \<le> length xs \<Longrightarrow> drop (i + length ys) (slice_set xs i j ys) = drop (max i j) xs"
  by (simp add: slice_set_def min_def)

lemma slice_slice_set_before:
  assumes "l \<le> i" "i \<le> length xs"
  shows "slice (slice_set xs i j ys) k l = slice xs k l"
proof -
  have "take l (slice_set xs i j ys) = take l xs"
    using assms by (rule take_slice_set)
  moreover have "slice zs k l = drop k (take l zs)" for zs :: "'a list"
    by (cases "k \<le> l") (simp_all add: slice_def drop_take)
  ultimately show ?thesis
    by simp
qed

lemma slice_slice_set_inside:
  "i \<le> length xs \<Longrightarrow> slice (slice_set xs i j ys) i (i + length ys) = ys"
  by (simp add: slice_def slice_set_def min_def)

lemma drop_slice_set_after:
  assumes "j \<le> length xs" "i + length ys = j" "j \<le> k"
  shows "drop k (slice_set xs i j ys) = drop k xs"
proof -
  have i: "i \<le> length xs" "max i j = j"
    using assms by auto
  have "drop k (slice_set xs i j ys) = drop (k - j) (drop (i + length ys) (slice_set xs i j ys))"
    using assms by (simp del: drop_drop add: drop_drop [of "k - j" j])
  also have "\<dots> = drop (k - j) (drop j xs)"
    using i by (simp only: drop_slice_set)
  also have "\<dots> = drop k xs"
    using assms by simp
  finally show ?thesis .
qed

lemma nth_slice_set_after:
  assumes "j \<le> length xs" "i + length ys = j" "j \<le> k" "k < length xs"
  shows "slice_set xs i j ys ! k = xs ! k"
proof -
  have len: "length (slice_set xs i j ys) = length xs"
    using assms by simp
  have "slice_set xs i j ys ! k = drop k (slice_set xs i j ys) ! 0"
    using assms len by simp
  also have "\<dots> = drop k xs ! 0"
    using assms by (simp only: drop_slice_set_after)
  also have "\<dots> = xs ! k"
    using assms by simp
  finally show ?thesis .
qed

lemma slice_slice_set_after:
  "j \<le> length xs \<Longrightarrow> i + length ys = j \<Longrightarrow> j \<le> k \<Longrightarrow>
   slice (slice_set xs i j ys) k l = slice xs k l"
  by (simp only: slice_def drop_slice_set_after)

lemma length_le_bytes [simp]: "length (le_bytes n v) = n"
  by (induction n arbitrary: v) simp_all

lemma struct_pack_Inr: "struct_pack w v = Inr bs \<Longrightarrow> length bs = w"
  by (auto simp: struct_pack_def split: if_splits)

lemma pack_into_Inr:
  "pack_into w buf off v = Inr buf' \<Longrightarrow>
   off + w \<le> length buf \<and> buf' = slice_set buf off (off + w) (le_bytes w v)"
  by (auto simp: pack_into_def struct_pack_def ebind_eq_Inr split: if_splits)

lemma pack_into_length: "pack_into w buf off v = Inr buf' \<Longrightarrow> length buf' = length buf"
  by (auto dest!: pack_into_Inr)

lemma pack_into_ok:
  "0 \<le> v \<Longrightarrow> v < 2 ^ (8 * w) \<Longrightarrow> off + w \<le> length buf \<Longrightarrow>
   pack_into w buf off v = Inr (slice_set buf off (off + w) (le_bytes w v))"
  by (simp add: pack_into_def struct_pack_def)

lemma pack_fields_length: "pack_fields buf fs = Inr buf' \<Longrightarrow> length buf' = length buf"
proof (induction fs arbitrary: buf)
  case Nil
  then show ?case by simp
next
  case (Cons f fs)
  obtain w off v where f: "f = (w, off, v)"
    by (cases f) auto
  from Cons.prems f obtain b1 where b1: "pack_into w buf off v = Inr b1" "pack_fields b1 fs = Inr buf'"
    by (auto simp: ebind_eq_Inr)
  then show ?case
    using Cons.IH [of b1] pack_into_length [of w buf off v b1] by simp
qed

text \<open>A field list whose values and offsets fit.\<close>

lemma pack_fields_ok:
  "list_all (\<lambda>(w, off, v). 0 \<le> v \<and> v < 2 ^ (8 * w) \<and> off + w \<le> length buf) fs \<Longrightarrow>
   \<exists>buf'. pack_fields buf fs = Inr buf'"
proof (induction fs arbitrary: buf)
  case Nil
  then show ?case by simp
next
  case (Cons f fs)
  obtain w off v where f: "f = (w, off, v)"
    by (cases f) auto
  let ?b1 = "slice_set buf off (off + w) (le_bytes w v)"
  from Cons.prems f have p: "pack_into w buf off v = Inr ?b1"
    by (simp add: pack_into_ok)
  have len: "length ?b1 = length buf"
    using Cons.prems f by simp
  from Cons.prems f len have "list_all (\<lambda>(w, off, v). 0 \<le> v \<and> v < 2 ^ (8 * w) \<and> off + w \<le> length ?b1) fs"
    by simp
  from Cons.IH [OF this] p f show ?case
    by simp
qed

lemma pack_fields_nth_before:
  "pack_fields buf fs = Inr buf' \<Longrightarrow> list_all (\<lambda>(w, off, v). k < off) fs \<Longrightarrow> buf' ! k = buf ! k"
proof (induction fs arbitrary: buf)
  case Nil
  then show ?case by simp
next
  case (Cons f fs)
  obtain w off v where f: "f = (w, off, v)"
    by (cases f) auto
  from Cons.prems f obtain b1 where b1: "pack_into w buf off v = Inr b1" "pack_fields b1 fs = Inr buf'"
    by (auto simp: ebind_eq_Inr)
  from b1(1) have "b1 = slice_set buf off (off + w) (le_bytes w v)" "off + w \<le> length buf"
    by (auto dest: pack_into_Inr)
  moreover have "k < off"
    using Cons.prems f by simp
  ultimately have "b1 ! k = buf ! k"
    by (simp add: nth_slice_set_before)
  then show ?case
    using Cons.IH [OF b1(2)] Cons.prems f by simp
qed

lemma fat_chain_consecutive:
  assumes "\<And>i. i + 1 < n \<Longrightarrow> entry (f + i) = Some (f + i + 1)"
    and "f + n \<le> 0x0FFFFFF8"
    and "entry (f + n - 1) = Some v" "is_eoc v" "0 < n" "n \<le> fuel"
  shows "fat_chain entry fuel f = Some [f..<f + n]"
  using assms
proof (induction n arbitrary: f fuel)
  case 0
  then show ?case by simp
next
  case (Suc n)
  obtain fuel' where fuel: "fuel = Suc fuel'" "n \<le> fuel'"
    using Suc.prems(6) by (cases fuel) auto
  show ?case
  proof (cases "n = 0")
    case True
    with Suc.prems fuel show ?thesis
      by simp
  next
    case False
    have e: "entry f = Some (f + 1)"
      using Suc.prems(1) [of 0] False by simp
    have ne: "\<not> is_eoc (f + 1)"
      using Suc.prems(2) False by (simp add: is_eoc_def)
    have "fat_chain entry fuel' (f + 1) = Some [f + 1..<f + 1 + n]"
    proof (rule Suc.IH)
      show "entry (f + 1 + i) = Some (f + 1 + i + 1)" if "i + 1 < n" for i
        using Suc.prems(1) [of "i + 1"] that by (simp add: add.commute add.left_commute)
      show "f + 1 + n \<le> 0x0FFFFFF8"
        using Suc.prems(2) by simp
      show "entry (f + 1 + n - 1) = Some v"
        using Suc.prems(3) by simp
      show "is_eoc v" by fact
      show "0 < n" using False by simp
      show "n \<le> fuel'" by fact
    qed
    then show ?thesis
      using e ne fuel by (simp add: upt_rec [of f])
  qed
qed

lemma allocate_cluster_Inr:
  "allocate_cluster b = Inr (c, b') \<longleftrightarrow>
     c = next_free_cluster b \<and> next_free_cluster b < length (fat_table b) \<and>
     b' = b\<lparr>fat_table := (fat_table b)[next_free_cluster b := 0x0FFFFFFF],
            next_free_cluster := next_free_cluster b + 1\<rparr>"
  by (auto simp: allocate_cluster_def list_set_def Let_def)

lemma allocate_cluster_ok:
  "next_free_cluster b < length (fat_table b) \<Longrightarrow>
   allocate_cluster b = Inr (next_free_cluster b,
     b\<lparr>fat_table := (fat_table b)[next_free_cluster b := 0x0FFFFFFF],
       next_free_cluster := next_free_cluster b + 1\<rparr>)"
  by (simp add: allocate_cluster_Inr)

text \<open>
  The allocation loop, entered with \<open>current_cluster\<close> the cluster allocated last: it links
  the clusters \<open>c, c + 1, \<dots>, c + k\<close> and touches no other entry.
\<close>

lemma alloc_loop_Inr:
  assumes "alloc_loop js c b = Inr b'" "next_free_cluster b = c + 1"
    "fat_table b ! c = 0x0FFFFFFF" "c < length (fat_table b)"
  shows "b' = b\<lparr>fat_table := fat_table b', next_free_cluster := c + 1 + length js\<rparr> \<and>
         length (fat_table b') = length (fat_table b) \<and>
         c + length js < length (fat_table b) \<and>
         (\<forall>j. j < c \<or> c + length js < j \<longrightarrow> fat_table b' ! j = fat_table b ! j) \<and>
         (\<forall>i < length js. fat_table b' ! (c + i) = c + i + 1) \<and>
         fat_table b' ! (c + length js) = 0x0FFFFFFF"
  using assms
proof (induction js arbitrary: c b)
  case Nil
  then show ?case by simp
next
  case (Cons i js)
  let ?b1 = "b\<lparr>fat_table := (fat_table b)[c + 1 := 0x0FFFFFFF], next_free_cluster := c + 2\<rparr>"
  let ?b2 = "?b1\<lparr>fat_table := (fat_table ?b1)[c := c + 1]\<rparr>"
  from Cons.prems have lt: "c + 1 < length (fat_table b)"
    by (auto simp: ebind_eq_Inr allocate_cluster_Inr)
  with Cons.prems have rec: "alloc_loop js (c + 1) ?b2 = Inr b'"
    by (simp add: allocate_cluster_ok list_set_def)
  have ih: "b' = ?b2\<lparr>fat_table := fat_table b', next_free_cluster := c + 1 + 1 + length js\<rparr> \<and>
         length (fat_table b') = length (fat_table ?b2) \<and>
         c + 1 + length js < length (fat_table ?b2) \<and>
         (\<forall>j. j < c + 1 \<or> c + 1 + length js < j \<longrightarrow> fat_table b' ! j = fat_table ?b2 ! j) \<and>
         (\<forall>i < length js. fat_table b' ! (c + 1 + i) = c + 1 + i + 1) \<and>
         fat_table b' ! (c + 1 + length js) = 0x0FFFFFFF"
    using lt by (intro Cons.IH [OF rec]) simp_all
  have frame: "b' = b\<lparr>fat_table := fat_table b', next_free_cluster := c + 1 + length (i # js)\<rparr>"
    using ih by (simp add: add.commute add.left_commute)
  have other: "fat_table b' ! j = fat_table b ! j" if "j < c \<or> c + length (i # js) < j" for j
  proof -
    have "fat_table b' ! j = fat_table ?b2 ! j"
      using ih that by auto
    also have "\<dots> = fat_table b ! j"
      using that by auto
    finally show ?thesis .
  qed
  have link: "fat_table b' ! (c + k) = c + k + 1" if "k < length (i # js)" for k
  proof (cases k)
    case 0
    have "fat_table b' ! c = fat_table ?b2 ! c"
      using ih by auto
    then show ?thesis
      using 0 lt by simp
  next
    case (Suc k')
    then show ?thesis
      using ih that by (auto simp: add.commute add.left_commute)
  qed
  show ?case
    using ih frame other link by (auto simp: add.commute add.left_commute)
qed

lemma alloc_loop_ok:
  "next_free_cluster b = c + 1 \<Longrightarrow> c + length js < length (fat_table b) \<Longrightarrow>
   \<exists>b'. alloc_loop js c b = Inr b'"
proof (induction js arbitrary: c b)
  case Nil
  then show ?case by simp
next
  case (Cons i js)
  let ?b1 = "b\<lparr>fat_table := (fat_table b)[c + 1 := 0x0FFFFFFF], next_free_cluster := c + 2\<rparr>"
  let ?b2 = "?b1\<lparr>fat_table := (fat_table ?b1)[c := c + 1]\<rparr>"
  have "\<exists>b'. alloc_loop js (c + 1) ?b2 = Inr b'"
    using Cons.prems by (intro Cons.IH) simp_all
  then show ?case
    using Cons.prems by (simp add: allocate_cluster_ok list_set_def)
qed

declare find_empty_entry.simps [simp del]
declare pad_to_sector.simps [simp del]

lemma cluster_offset_inv:
  "builder_inv b \<Longrightarrow> 2 \<le> c \<Longrightarrow> cluster_offset b c = 278528 + (c - 2) * 4096"
  by (simp add: builder_inv_def cluster_offset_def cluster_to_sector_def)

lemma cluster_offset_add:
  "builder_inv b \<Longrightarrow> 2 \<le> c \<Longrightarrow> cluster_offset b (c + m) = cluster_offset b c + m * 4096"
  by (simp add: cluster_offset_inv)

lemma clusters_bounds:
  fixes len :: nat
  assumes "n = (len + 4096 - 1) div 4096"
  shows "len \<le> n * 4096" "n * 4096 < len + 4096"
  using assms by auto

lemma chunk_padded:
  fixes file_data :: "byte list"
  assumes n: "n = (length file_data + 4096 - 1) div 4096" and m: "m < n"
  shows "slice file_data (m * 4096) (min ((m + 1) * 4096) (length file_data))
           @ zeros (4096 - length (slice file_data (m * 4096) (min ((m + 1) * 4096) (length file_data))))
         = slice (file_data @ zeros (n * 4096 - length file_data)) (m * 4096) ((m + 1) * 4096)"
proof -
  let ?len = "length file_data"
  have b: "?len \<le> n * 4096" "n * 4096 < ?len + 4096"
    using clusters_bounds [OF n] by auto
  have m1: "(m + 1) * 4096 \<le> n * 4096"
    using m by simp
  have lt: "m * 4096 < ?len"
    using b m1 by simp
  show ?thesis
  proof (cases "(m + 1) * 4096 \<le> ?len")
    case True
    then show ?thesis
      using lt by (simp add: slice_def min_def)
  next
    case False
    have z: "4096 - (?len - m * 4096) \<le> n * 4096 - ?len"
      using m1 lt by simp
    show ?thesis
      using False lt z by (simp add: slice_def min_def)
  qed
qed

lemma length_padded:
  fixes file_data :: "byte list"
  assumes "n = (length file_data + 4096 - 1) div 4096"
  shows "length (file_data @ zeros (n * 4096 - length file_data)) = n * 4096"
  using clusters_bounds [OF assms] by simp

lemma slice_set_mid:
  "length pre = k \<Longrightarrow> slice_set (pre @ rest) k (k + j) ys = pre @ ys @ drop j rest"
  by (simp add: slice_set_def)

lemma write_chunk_eq:
  assumes "builder_inv b" "2 \<le> first"
  shows "write_chunk b first file_data i img =
         slice_set img (cluster_offset b first + i * 4096) (cluster_offset b first + i * 4096 + 4096)
           (slice file_data (i * 4096) (min ((i + 1) * 4096) (length file_data))
            @ zeros (4096 - length (slice file_data (i * 4096) (min ((i + 1) * 4096) (length file_data)))))"
proof -
  have "cluster_to_sector b (first + i) * sector_size b = cluster_offset b first + i * 4096"
    using cluster_offset_add [OF assms, of i] by (simp add: cluster_offset_def)
  moreover have "bytes_per_cluster b = 4096"
    using assms by (simp add: builder_inv_def)
  ultimately show ?thesis
    by (simp add: write_chunk_def Let_def)
qed

text \<open>The copy loop after \<open>m\<close> of its \<open>n\<close> rounds.\<close>

lemma fold_write_chunk:
  fixes file_data :: "byte list"
  assumes inv: "builder_inv b" and first: "2 \<le> first"
    and n: "n = (length file_data + 4096 - 1) div 4096"
    and off: "cluster_offset b first \<le> length img"
    and m: "m \<le> n"
  shows "fold (write_chunk b first file_data) [0..<m] img =
         take (cluster_offset b first) img
         @ take (m * 4096) (file_data @ zeros (n * 4096 - length file_data))
         @ drop (cluster_offset b first + m * 4096) img"
proof -
  define pad where "pad = file_data @ zeros (n * 4096 - length file_data)"
  define ofs where "ofs = cluster_offset b first"
  have lp: "length pad = n * 4096"
    unfolding pad_def by (rule length_padded [OF n])
  have step: "write_chunk b first file_data k xs =
              slice_set xs (ofs + k * 4096) (ofs + k * 4096 + 4096) (slice pad (k * 4096) ((k + 1) * 4096))"
    if "k < n" for k xs
    unfolding pad_def ofs_def by (simp only: write_chunk_eq [OF inv first] chunk_padded [OF n that])
  have "fold (write_chunk b first file_data) [0..<m] img =
        take ofs img @ take (m * 4096) pad @ drop (ofs + m * 4096) img"
    using m
  proof (induction m)
    case 0
    then show ?case by simp
  next
    case (Suc m)
    let ?C = "slice pad (m * 4096) ((m + 1) * 4096)"
    have mn: "m < n"
      using Suc.prems by simp
    have lpre: "length (take ofs img @ take (m * 4096) pad) = ofs + m * 4096"
      using off mn lp by (simp add: ofs_def min_def)
    have "fold (write_chunk b first file_data) [0..<Suc m] img =
          write_chunk b first file_data m (fold (write_chunk b first file_data) [0..<m] img)"
      by simp
    also have "\<dots> = write_chunk b first file_data m
                        ((take ofs img @ take (m * 4096) pad) @ drop (ofs + m * 4096) img)"
      using Suc by simp
    also have "\<dots> = (take ofs img @ take (m * 4096) pad) @ ?C @ drop 4096 (drop (ofs + m * 4096) img)"
      by (simp only: step [OF mn] slice_set_mid [OF lpre])
    also have "drop 4096 (drop (ofs + m * 4096) img) = drop (ofs + Suc m * 4096) img"
      by (simp add: add.commute add.left_commute)
    finally have eq: "fold (write_chunk b first file_data) [0..<Suc m] img =
        take ofs img @ (take (m * 4096) pad @ ?C) @ drop (ofs + Suc m * 4096) img"
      by simp
    have "take (m * 4096) pad @ ?C = take (Suc m * 4096) pad"
      by (simp add: slice_def take_add [symmetric] add.commute)
    then show ?case
      using eq by (simp only:)
  qed
  then show ?thesis
    by (simp only: pad_def ofs_def)
qed

lemma fold_write_chunk_all:
  fixes file_data :: "byte list"
  assumes "builder_inv b" "2 \<le> first" "cluster_offset b first \<le> length img"
  shows "fold (write_chunk b first file_data) [0..<clusters_for b file_data] img =
         take (cluster_offset b first) img @ padded_payload b file_data
         @ drop (cluster_offset b first + clusters_for b file_data * 4096) img"
proof -
  have bpc: "bytes_per_cluster b = 4096"
    using assms by (simp add: builder_inv_def)
  have n: "clusters_for b file_data = (length file_data + 4096 - 1) div 4096"
    by (simp add: clusters_for_def bpc)
  have "take (clusters_for b file_data * 4096) (padded_payload b file_data) = padded_payload b file_data"
    using length_padded [OF n] by (simp add: padded_payload_def bpc)
  then show ?thesis
    using fold_write_chunk [OF assms(1,2) n assms(3) order_refl]
    by (simp add: padded_payload_def bpc)
qed

lemma step32_down:
  fixes i j :: nat
  shows "i \<le> j \<Longrightarrow> (j - i) mod 32 = 0 \<Longrightarrow> j \<noteq> i \<Longrightarrow> i + 32 \<le> j \<and> (j - (i + 32)) mod 32 = 0"
  by presburger

lemma step32_up:
  fixes i j :: nat
  shows "i + 32 \<le> j \<Longrightarrow> (j - (i + 32)) mod 32 = 0 \<Longrightarrow> i \<le> j \<and> (j - i) mod 32 = 0"
  by presburger

lemma find_empty_entry_Some:
  "find_empty_entry d i = Some k \<Longrightarrow>
     i \<le> k \<and> k < length d \<and> (k - i) mod 32 = 0 \<and> (d ! k = 0x00 \<or> d ! k = 0xE5) \<and>
     (\<forall>j. i \<le> j \<and> j < k \<and> (j - i) mod 32 = 0 \<longrightarrow> d ! j \<noteq> 0x00 \<and> d ! j \<noteq> 0xE5)"
proof (induction d i rule: find_empty_entry.induct)
  case (1 d i)
  have lt: "i < length d"
    using "1.prems" by (simp add: find_empty_entry.simps [of d i] split: if_splits)
  show ?case
  proof (cases "d ! i = 0x00 \<or> d ! i = 0xE5")
    case True
    with lt "1.prems" have "k = i"
      by (simp add: find_empty_entry.simps [of d i])
    with True lt show ?thesis
      by auto
  next
    case False
    with lt "1.prems" have rec: "find_empty_entry d (i + 32) = Some k"
      by (simp add: find_empty_entry.simps [of d i])
    note ih = "1.IH" [OF lt False rec]
    have k: "i + 32 \<le> k" "k < length d" "(k - (i + 32)) mod 32 = 0" "d ! k = 0x00 \<or> d ! k = 0xE5"
      using ih by simp_all
    have ihj: "d ! j \<noteq> 0x00 \<and> d ! j \<noteq> 0xE5" if "i + 32 \<le> j \<and> j < k \<and> (j - (i + 32)) mod 32 = 0" for j
      using ih that by simp
    have "d ! j \<noteq> 0x00 \<and> d ! j \<noteq> 0xE5" if j: "i \<le> j \<and> j < k \<and> (j - i) mod 32 = 0" for j
    proof (cases "j = i")
      case True
      with False show ?thesis by simp
    next
      case ne: False
      have "i + 32 \<le> j \<and> (j - (i + 32)) mod 32 = 0"
        using step32_down [of i j] j ne by simp
      with ihj [of j] j show ?thesis
        by simp
    qed
    then have all: "\<forall>j. i \<le> j \<and> j < k \<and> (j - i) mod 32 = 0 \<longrightarrow> d ! j \<noteq> 0x00 \<and> d ! j \<noteq> 0xE5"
      by simp
    have "i \<le> k \<and> (k - i) mod 32 = 0"
      using step32_up [of i k] k by simp
    then show ?thesis
      using k all by simp
  qed
qed

lemma find_empty_entry_None:
  "find_empty_entry d i = None \<longleftrightarrow>
     (\<forall>j. i \<le> j \<and> j < length d \<and> (j - i) mod 32 = 0 \<longrightarrow> d ! j \<noteq> 0x00 \<and> d ! j \<noteq> 0xE5)"
proof (induction d i rule: find_empty_entry.induct)
  case (1 d i)
  show ?case
  proof (cases "i < length d")
    case False
    then show ?thesis
      by (auto simp: find_empty_entry.simps [of d i])
  next
    case lt: True
    show ?thesis
    proof (cases "d ! i = 0x00 \<or> d ! i = 0xE5")
      case True
      with lt have "find_empty_entry d i = Some i"
        by (simp add: find_empty_entry.simps [of d i])
      moreover have "i \<le> i \<and> i < length d \<and> (i - i) mod 32 = 0"
        using lt by simp
      then have "\<not> (\<forall>j. i \<le> j \<and> j < length d \<and> (j - i) mod 32 = 0 \<longrightarrow> d ! j \<noteq> 0x00 \<and> d ! j \<noteq> 0xE5)"
        using True by (intro notI) (drule spec [of _ i], simp)
      ultimately show ?thesis
        by simp
    next
      case False
      have step: "find_empty_entry d i = find_empty_entry d (i + 32)"
        using lt False by (simp add: find_empty_entry.simps [of d i])
      have "(\<forall>j. i \<le> j \<and> j < length d \<and> (j - i) mod 32 = 0 \<longrightarrow> d ! j \<noteq> 0x00 \<and> d ! j \<noteq> 0xE5) \<longleftrightarrow>
            (\<forall>j. i + 32 \<le> j \<and> j < length d \<and> (j - (i + 32)) mod 32 = 0 \<longrightarrow> d ! j \<noteq> 0x00 \<and> d ! j \<noteq> 0xE5)"
        (is "?L \<longleftrightarrow> ?R")
      proof
        assume l: ?L
        show ?R
        proof (intro allI impI)
          fix j assume j: "i + 32 \<le> j \<and> j < length d \<and> (j - (i + 32)) mod 32 = 0"
          then have "i \<le> j \<and> (j - i) mod 32 = 0"
            using step32_up [of i j] by simp
          with l [rule_format, of j] j show "d ! j \<noteq> 0x00 \<and> d ! j \<noteq> 0xE5"
            by simp
        qed
      next
        assume r: ?R
        show ?L
        proof (intro allI impI)
          fix j assume j: "i \<le> j \<and> j < length d \<and> (j - i) mod 32 = 0"
          show "d ! j \<noteq> 0x00 \<and> d ! j \<noteq> 0xE5"
          proof (cases "j = i")
            case True
            with False show ?thesis by simp
          next
            case ne: False
            with j have "i + 32 \<le> j \<and> (j - (i + 32)) mod 32 = 0"
              using step32_down [of i j] by simp
            with r [rule_format, of j] j show ?thesis
              by simp
          qed
        qed
      qed
      with "1.IH" [OF lt False] step show ?thesis
        by simp
    qed
  qed
qed

text \<open>The scan from 0 finds the first free slot, and fails exactly when there is none.\<close>

lemma find_empty_entry_first:
  "find_empty_entry d 0 = Some k \<longleftrightarrow> free_slot d k \<and> (\<forall>j < k. \<not> free_slot d j)"
proof
  assume "find_empty_entry d 0 = Some k"
  from find_empty_entry_Some [OF this] show "free_slot d k \<and> (\<forall>j < k. \<not> free_slot d j)"
    by (auto simp: free_slot_def)
next
  assume a: "free_slot d k \<and> (\<forall>j < k. \<not> free_slot d j)"
  then have "\<not> (\<forall>j. 0 \<le> j \<and> j < length d \<and> (j - 0) mod 32 = 0 \<longrightarrow> d ! j \<noteq> 0x00 \<and> d ! j \<noteq> 0xE5)"
    by (intro notI) (drule spec [of _ k], auto simp: free_slot_def)
  then have "find_empty_entry d 0 \<noteq> None"
    by (simp add: find_empty_entry_None)
  then obtain k' where k': "find_empty_entry d 0 = Some k'"
    by auto
  from find_empty_entry_Some [OF this] have f: "free_slot d k'" and m: "\<forall>j < k'. \<not> free_slot d j"
    by (auto simp: free_slot_def)
  have "\<not> k < k'" "\<not> k' < k"
    using a f m by auto
  then have "k' = k"
    by simp
  with k' show "find_empty_entry d 0 = Some k"
    by simp
qed

lemma find_empty_entry_none:
  "find_empty_entry d 0 = None \<longleftrightarrow> (\<forall>j. \<not> free_slot d j)"
  by (auto simp: find_empty_entry_None free_slot_def)

lemma le_value_le_bytes:
  "0 \<le> v \<Longrightarrow> v < 2 ^ (8 * w) \<Longrightarrow> int (le_value (le_bytes w v)) = v"
proof (induction w arbitrary: v)
  case 0
  then show ?case by simp
next
  case (Suc w)
  define K :: int where "K = 2 ^ (8 * w)"
  have "v < 256 * K"
    using Suc.prems by (simp add: K_def power_add)
  then have "v div 256 < K"
    by linarith
  then have "v div 256 < 2 ^ (8 * w)"
    by (simp add: K_def)
  moreover have "0 \<le> v div 256"
    using Suc.prems by simp
  ultimately have ih: "int (le_value (le_bytes w (v div 256))) = v div 256"
    by (rule Suc.IH [rotated])
  have "int (unat (word_of_int v :: byte)) = v mod 256"
    by (simp add: unsigned_of_int take_bit_eq_mod)
  then show ?case
    using ih by simp
qed

lemma pack_fields_append:
  "pack_fields buf (fs @ gs) = ebind (pack_fields buf fs) (\<lambda>b. pack_fields b gs)"
proof (induction fs arbitrary: buf)
  case Nil
  then show ?case by simp
next
  case (Cons f fs)
  obtain w off v where f: "f = (w, off, v)"
    by (cases f) auto
  show ?case
    by (cases "pack_into w buf off v") (simp_all add: f Cons.IH)
qed

lemma pack_fields_keeps_slice:
  "pack_fields buf gs = Inr buf' \<Longrightarrow>
   list_all (\<lambda>(w, off, v). off + w \<le> k \<or> l \<le> off) gs \<Longrightarrow>
   slice buf' k l = slice buf k l"
proof (induction gs arbitrary: buf)
  case Nil
  then show ?case by simp
next
  case (Cons g gs)
  obtain w off v where g: "g = (w, off, v)"
    by (cases g) auto
  from Cons.prems g obtain b1 where b1: "pack_into w buf off v = Inr b1" "pack_fields b1 gs = Inr buf'"
    by (auto simp: ebind_eq_Inr)
  from b1(1) have e: "b1 = slice_set buf off (off + w) (le_bytes w v)" "off + w \<le> length buf"
    by (auto dest: pack_into_Inr)
  have d: "off + w \<le> k \<or> l \<le> off"
    using Cons.prems g by simp
  have "slice b1 k l = slice buf k l"
  proof (cases "l \<le> off")
    case True
    then show ?thesis
      using e by (simp add: slice_slice_set_before)
  next
    case False
    with d have "off + w \<le> k" by simp
    then show ?thesis
      using e by (simp add: slice_slice_set_after)
  qed
  moreover have "slice buf' k l = slice b1 k l"
    using Cons.IH [OF b1(2)] Cons.prems g by simp
  ultimately show ?case
    by simp
qed

lemma pack_fields_slice:
  assumes "pack_fields buf (fs @ (w, off, v) # gs) = Inr buf'"
    and "list_all (\<lambda>(w', off', v'). off' + w' \<le> off \<or> off + w \<le> off') gs"
  shows "slice buf' off (off + w) = le_bytes w v"
proof -
  from assms(1) obtain b1 b2 where b: "pack_fields buf fs = Inr b1" "pack_into w b1 off v = Inr b2"
    "pack_fields b2 gs = Inr buf'"
    by (auto simp: pack_fields_append ebind_eq_Inr)
  from b(2) have e: "b2 = slice_set b1 off (off + w) (le_bytes w v)" "off + w \<le> length b1"
    by (auto dest: pack_into_Inr)
  have "slice b2 off (off + w) = le_bytes w v"
    using e slice_slice_set_inside [of off b1 "off + w" "le_bytes w v"] by simp
  then show ?thesis
    using pack_fields_keeps_slice [OF b(3) assms(2)] by simp
qed

lemma pack_fields_Inl: "pack_fields buf fs = Inl e \<Longrightarrow> e = StructError"
proof (induction fs arbitrary: buf)
  case Nil
  then show ?case by simp
next
  case (Cons f fs)
  obtain w off v where f: "f = (w, off, v)"
    by (cases f) auto
  show ?case
  proof (cases "pack_into w buf off v")
    case (Inl e')
    then have "e' = StructError"
      by (auto simp: pack_into_def struct_pack_def split: if_splits)
    with Inl Cons.prems f show ?thesis by simp
  next
    case (Inr b1)
    with Cons.prems f Cons.IH [of b1] show ?thesis by simp
  qed
qed

lemma time_val_bound:
  assumes "now_ok now"
  shows "0 \<le> push_bit 11 (int (hour now)) OR push_bit 5 (int (minute now)) OR int (second now div 2)"
    and "push_bit 11 (int (hour now)) OR push_bit 5 (int (minute now)) OR int (second now div 2) < 2 ^ 16"
proof -
  have h: "push_bit 11 (int (hour now)) < 2 ^ 16" and m: "push_bit 5 (int (minute now)) < 2 ^ 16"
    using assms by (simp_all add: now_ok_def push_bit_eq_mult)
  have s: "int (second now div 2) < 2 ^ 16"
    using assms unfolding now_ok_def by simp linarith
  show "0 \<le> push_bit 11 (int (hour now)) OR push_bit 5 (int (minute now)) OR int (second now div 2)"
    by simp
  show "push_bit 11 (int (hour now)) OR push_bit 5 (int (minute now)) OR int (second now div 2) < 2 ^ 16"
    using h m s by (intro OR_upper) simp_all
qed

lemma date_val_bound:
  assumes "now_ok now"
  shows "0 \<le> push_bit 9 (int (year now) - 1980) OR push_bit 5 (int (month now)) OR int (day now)"
    and "push_bit 9 (int (year now) - 1980) OR push_bit 5 (int (month now)) OR int (day now) < 2 ^ 16"
proof -
  have y0: "0 \<le> int (year now) - 1980"
    using assms by (simp add: now_ok_def)
  have y: "push_bit 9 (int (year now) - 1980) < 2 ^ 16" and m: "push_bit 5 (int (month now)) < 2 ^ 16"
    and d: "int (day now) < 2 ^ 16"
    using assms by (simp_all add: now_ok_def push_bit_eq_mult)
  show "0 \<le> push_bit 9 (int (year now) - 1980) OR push_bit 5 (int (month now)) OR int (day now)"
    using y0 by simp
  show "push_bit 9 (int (year now) - 1980) OR push_bit 5 (int (month now)) OR int (day now) < 2 ^ 16"
    using y0 y m d by (intro OR_upper) simp_all
qed

lemma cluster_halves:
  assumes "fc < 2 ^ 32"
  shows "0 \<le> drop_bit 16 (int fc)" "drop_bit 16 (int fc) < 2 ^ 16"
    "0 \<le> int fc AND 0xFFFF" "int fc AND 0xFFFF < 2 ^ 16"
    "drop_bit 16 (int fc) = int (fc div 65536)" "int fc AND 0xFFFF = int (fc mod 65536)"
proof -
  show d: "drop_bit 16 (int fc) = int (fc div 65536)"
    by (simp add: drop_bit_eq_div zdiv_int)
  have "int fc AND 0xFFFF = int fc AND mask 16"
    by (simp add: mask_eq_exp_minus_1)
  also have "\<dots> = take_bit 16 (int fc)"
    by (simp only: take_bit_eq_mask)
  also have "\<dots> = int fc mod 65536"
    by (simp add: take_bit_eq_mod)
  finally show a: "int fc AND 0xFFFF = int (fc mod 65536)"
    by (simp add: zmod_int)
  show "0 \<le> drop_bit 16 (int fc)" "drop_bit 16 (int fc) < 2 ^ 16"
    using assms unfolding d by simp_all
  show "0 \<le> int fc AND 0xFFFF" "int fc AND 0xFFFF < 2 ^ 16"
    unfolding a by simp_all
qed

lemma pack_fields_in_range:
  "pack_fields buf fs = Inr buf' \<Longrightarrow> list_all (\<lambda>(w, off, v). 0 \<le> v \<and> v < 2 ^ (8 * w)) fs"
proof (induction fs arbitrary: buf)
  case Nil
  then show ?case by simp
next
  case (Cons f fs)
  obtain w off v where f: "f = (w, off, v)"
    by (cases f) auto
  from Cons.prems f obtain b1 where b1: "pack_into w buf off v = Inr b1" "pack_fields b1 fs = Inr buf'"
    by (auto simp: ebind_eq_Inr)
  from b1(1) have "0 \<le> v \<and> v < 2 ^ (8 * w)"
    by (auto simp: pack_into_def struct_pack_def ebind_eq_Inr split: if_splits)
  then show ?case
    using Cons.IH [OF b1(2)] f by simp
qed

lemma make_entry_Inr:
  assumes ok: "make_entry fn fc sz now = Inr e" and fn: "length fn = 11"
  shows "length e = 32" and "slice e 0 11 = fn"
    and "entry_first_cluster e = fc" and "entry_size e = sz"
proof -
  let ?t = "push_bit 11 (int (hour now)) OR push_bit 5 (int (minute now)) OR int (second now div 2)"
  let ?d = "push_bit 9 (int (year now) - 1980) OR push_bit 5 (int (month now)) OR int (day now)"
  let ?e0 = "(slice_set (zeros 32) 0 11 fn)[11 := 0x20]"
  let ?fs = "[(2, 14, ?t), (2, 16, ?d), (2, 18, ?d), (2, 20, drop_bit 16 (int fc)), (2, 22, ?t),
              (2, 24, ?d), (2, 26, int fc AND 0xFFFF), (4, 28, int sz)]"
  have pf: "pack_fields ?e0 ?fs = Inr e"
    using ok by (simp add: make_entry_def Let_def)
  have l0: "length ?e0 = 32"
    using fn by (simp add: length_slice_set)
  show "length e = 32"
    using pack_fields_length [OF pf] l0 by simp
  have "slice e 0 11 = slice ?e0 0 11"
    by (rule pack_fields_keeps_slice [OF pf]) simp
  also have "\<dots> = fn"
    using fn by (simp add: slice_def slice_set_def)
  finally show "slice e 0 11 = fn" .
  have rng: "0 \<le> drop_bit 16 (int fc)" "drop_bit 16 (int fc) < 2 ^ 16"
    "0 \<le> int fc AND 0xFFFF" "int fc AND 0xFFFF < 2 ^ 16" "int sz < 2 ^ 32"
    using pack_fields_in_range [OF pf] by simp_all
  have hi: "slice e 20 22 = le_bytes 2 (drop_bit 16 (int fc))"
    using pack_fields_slice [of ?e0 "[(2, 14, ?t), (2, 16, ?d), (2, 18, ?d)]" 2 20 "drop_bit 16 (int fc)"
        "[(2, 22, ?t), (2, 24, ?d), (2, 26, int fc AND 0xFFFF), (4, 28, int sz)]" e] pf
    by simp
  have lo: "slice e 26 28 = le_bytes 2 (int fc AND 0xFFFF)"
    using pack_fields_slice [of ?e0 "[(2, 14, ?t), (2, 16, ?d), (2, 18, ?d), (2, 20, drop_bit 16 (int fc)),
          (2, 22, ?t), (2, 24, ?d)]" 2 26 "int fc AND 0xFFFF" "[(4, 28, int sz)]" e] pf
    by simp
  have szb: "slice e 28 32 = le_bytes 4 (int sz)"
    using pack_fields_slice [of ?e0 "[(2, 14, ?t), (2, 16, ?d), (2, 18, ?d), (2, 20, drop_bit 16 (int fc)),
          (2, 22, ?t), (2, 24, ?d), (2, 26, int fc AND 0xFFFF)]" 4 28 "int sz" "[]" e] pf
    by simp
  have "int (le_value (le_bytes 2 (drop_bit 16 (int fc)))) = drop_bit 16 (int fc)"
    using rng by (intro le_value_le_bytes) simp_all
  then have vhi: "le_value (slice e 20 22) = fc div 65536"
    unfolding hi by (simp add: drop_bit_eq_div zdiv_int flip: of_nat_eq_iff)
  have a: "int fc AND 0xFFFF = int (fc mod 65536)"
  proof -
    have "int fc AND 0xFFFF = int fc AND mask 16"
      by (simp add: mask_eq_exp_minus_1)
    also have "\<dots> = take_bit 16 (int fc)"
      by (simp only: take_bit_eq_mask)
    also have "\<dots> = int fc mod 65536"
      by (simp add: take_bit_eq_mod)
    finally show ?thesis
      by (simp add: zmod_int)
  qed
  have "int (le_value (le_bytes 2 (int fc AND 0xFFFF))) = int fc AND 0xFFFF"
    using rng by (intro le_value_le_bytes) simp_all
  then have vlo: "le_value (slice e 26 28) = fc mod 65536"
    unfolding lo a by (simp only: of_nat_eq_iff)
  show "entry_first_cluster e = fc"
    unfolding entry_first_cluster_def vhi vlo by simp
  have "int (le_value (le_bytes 4 (int sz))) = int sz"
    using rng by (intro le_value_le_bytes) simp_all
  then show "entry_size e = sz"
    unfolding entry_size_def szb by (simp only: of_nat_eq_iff)
qed

lemma make_entry_ok:
  assumes "now_ok now" "fc < 2 ^ 32" "sz < 2 ^ 32" "length fn = 11"
  shows "\<exists>e. make_entry fn fc sz now = Inr e"
proof -
  have l0: "length ((slice_set (zeros 32) 0 11 fn)[11 := 0x20]) = 32"
    using assms by (simp add: length_slice_set)
  have fc: "0 \<le> drop_bit 16 (int fc)" "drop_bit 16 (int fc) < 2 ^ 16"
    "0 \<le> int fc AND 0xFFFF" "int fc AND 0xFFFF < 2 ^ 16"
    using cluster_halves [OF assms(2)] by simp_all
  have sz: "int sz < 2 ^ 32"
    using assms(3) by simp
  show ?thesis
    unfolding make_entry_def Let_def
    using time_val_bound [OF assms(1)] date_val_bound [OF assms(1)] fc sz l0
    by (intro pack_fields_ok) simp
qed

lemma make_entry_not_full: "make_entry fn fc sz now \<noteq> Inl (DirectoryFull x)"
proof
  assume "make_entry fn fc sz now = Inl (DirectoryFull x)"
  then have "DirectoryFull x = StructError"
    unfolding make_entry_def Let_def by (rule pack_fields_Inl)
  then show False by simp
qed

lemma free_slot_bound:
  assumes "free_slot d i" "length d mod 32 = 0"
  shows "i + 32 \<le> length d"
proof -
  have "i < length d" "i mod 32 = 0"
    using assms by (simp_all add: free_slot_def)
  with assms(2) show ?thesis
    by presburger
qed

lemma insert_entry_full:
  "insert_entry name d fn fc sz now = Inl (DirectoryFull x) \<longleftrightarrow>
     x = name \<and> (\<forall>j. \<not> free_slot d j)"
proof (cases "find_empty_entry d 0")
  case None
  then show ?thesis
    by (auto simp: insert_entry_def find_empty_entry_none [symmetric])
next
  case (Some i)
  then have "\<not> (\<forall>j. \<not> free_slot d j)"
    by (simp add: find_empty_entry_none [symmetric])
  moreover have "insert_entry name d fn fc sz now \<noteq> Inl (DirectoryFull x)"
  proof (cases "make_entry fn fc sz now")
    case (Inl e)
    with Some make_entry_not_full [of fn fc sz now x] show ?thesis
      by (simp add: insert_entry_def)
  next
    case (Inr e)
    with Some show ?thesis
      by (simp add: insert_entry_def Let_def)
  qed
  ultimately show ?thesis
    by simp
qed

text \<open>
  A successful insertion: the entry sits in the first free slot, the bytes before the
  slot are kept, and behind it at most the first byte of the next slot is cleared.
\<close>

lemma insert_entry_Inr:
  assumes ok: "insert_entry name d fn fc sz now = Inr d'" and fn: "length fn = 11"
    and len: "length d mod 32 = 0"
  shows "\<exists>i e rest. free_slot d i \<and> (\<forall>j < i. \<not> free_slot d j) \<and>
           make_entry fn fc sz now = Inr e \<and> length e = 32 \<and>
           d' = take i d @ e @ rest \<and> length rest = length d - (i + 32) \<and>
           (\<forall>p < length rest. rest ! p = d ! (i + 32 + p) \<or> rest ! p = 0)"
proof -
  from ok obtain i where i: "find_empty_entry d 0 = Some i"
    by (cases "find_empty_entry d 0") (simp_all add: insert_entry_def)
  with ok obtain e where e: "make_entry fn fc sz now = Inr e"
    by (cases "make_entry fn fc sz now") (simp_all add: insert_entry_def)
  have fs: "free_slot d i" "\<forall>j < i. \<not> free_slot d j"
    using i by (simp_all add: find_empty_entry_first)
  have le: "length e = 32"
    by (rule make_entry_Inr(1) [OF e fn])
  have ib: "i + 32 \<le> length d"
    by (rule free_slot_bound [OF fs(1) len])
  let ?d1 = "slice_set d i (i + 32) e"
  have d1: "?d1 = (take i d @ e) @ drop (i + 32) d"
    by (simp add: slice_set_def)
  have lpre: "length (take i d @ e) = i + 32"
    using ib le by simp
  define rest where "rest = (if i + 32 < length ?d1 \<and> ?d1 ! (i + 32) \<noteq> 0xE5
                             then (drop (i + 32) d)[0 := 0] else drop (i + 32) d)"
  have "(if i + 32 < length ?d1 \<and> ?d1 ! (i + 32) \<noteq> 0xE5 then ?d1[i + 32 := 0x00] else ?d1)
        = (take i d @ e) @ rest"
    unfolding rest_def d1 using lpre by (simp only: list_update_append) simp
  then have "d' = take i d @ e @ rest"
    using ok i e by (simp add: insert_entry_def Let_def)
  moreover have "length rest = length d - (i + 32)"
    by (simp add: rest_def)
  moreover have "\<forall>p < length rest. rest ! p = d ! (i + 32 + p) \<or> rest ! p = 0"
    using ib by (auto simp: rest_def nth_list_update)
  ultimately show ?thesis
    using fs e le by blast
qed

lemma insert_entry_ok:
  assumes "free_slot d i" "now_ok now" "fc < 2 ^ 32" "sz < 2 ^ 32" "length fn = 11"
  shows "\<exists>d'. insert_entry name d fn fc sz now = Inr d'"
proof -
  have "find_empty_entry d 0 \<noteq> None"
    using assms(1) by (auto simp: find_empty_entry_none)
  then obtain k where "find_empty_entry d 0 = Some k"
    by auto
  moreover obtain e where "make_entry fn fc sz now = Inr e"
    using make_entry_ok [OF assms(2-5)] by auto
  ultimately show ?thesis
    by (simp add: insert_entry_def Let_def)
qed

lemma fat_filename_length: "fat_filename_of name = Inr fn \<Longrightarrow> length fn = 11"
  by (auto simp: fat_filename_of_def encode_ascii_def ljust_def bytes_of_def
      split: prod.splits if_splits)

lemma alloc_phase:
  assumes a: "allocate_cluster b = Inr (first, b1)" and l: "alloc_loop [1..<n] first b1 = Inr b2"
    and n: "0 < n"
  shows "first = next_free_cluster b \<and>
         b2 = b\<lparr>fat_table := fat_table b2, next_free_cluster := next_free_cluster b + n\<rparr> \<and>
         length (fat_table b2) = length (fat_table b) \<and>
         next_free_cluster b + n \<le> length (fat_table b) \<and>
         (\<forall>j. j < next_free_cluster b \<or> next_free_cluster b + n \<le> j \<longrightarrow>
              fat_table b2 ! j = fat_table b ! j) \<and>
         (\<forall>i. i + 1 < n \<longrightarrow> fat_table b2 ! (next_free_cluster b + i) = next_free_cluster b + i + 1) \<and>
         fat_table b2 ! (next_free_cluster b + n - 1) = 0x0FFFFFFF"
proof -
  let ?c = "next_free_cluster b"
  from a have f: "first = ?c" and lt: "?c < length (fat_table b)"
    and b1: "b1 = b\<lparr>fat_table := (fat_table b)[?c := 0x0FFFFFFF], next_free_cluster := ?c + 1\<rparr>"
    by (simp_all add: allocate_cluster_Inr)
  have len: "length [1..<n] = n - 1"
    by simp
  have r: "b2 = b1\<lparr>fat_table := fat_table b2, next_free_cluster := ?c + 1 + (n - 1)\<rparr> \<and>
         length (fat_table b2) = length (fat_table b1) \<and>
         ?c + (n - 1) < length (fat_table b1) \<and>
         (\<forall>j. j < ?c \<or> ?c + (n - 1) < j \<longrightarrow> fat_table b2 ! j = fat_table b1 ! j) \<and>
         (\<forall>i < n - 1. fat_table b2 ! (?c + i) = ?c + i + 1) \<and>
         fat_table b2 ! (?c + (n - 1)) = 0x0FFFFFFF"
    using alloc_loop_Inr [of "[1..<n]" ?c b1 b2] l f lt unfolding len by (simp add: b1)
  have "b2 = b\<lparr>fat_table := fat_table b2, next_free_cluster := ?c + n\<rparr>"
    using r n by (simp add: b1)
  moreover have "length (fat_table b2) = length (fat_table b)"
    using r by (simp add: b1)
  moreover have "?c + n \<le> length (fat_table b)"
  proof -
    have "?c + (n - 1) < length (fat_table b)"
      using r by (simp add: b1)
    then show ?thesis
      using n by arith
  qed
  moreover have "fat_table b2 ! j = fat_table b ! j" if "j < ?c \<or> ?c + n \<le> j" for j
  proof -
    have "fat_table b2 ! j = fat_table b1 ! j"
      using r that n by auto
    also have "\<dots> = fat_table b ! j"
      using that n by (auto simp: b1)
    finally show ?thesis .
  qed
  moreover have "fat_table b2 ! (?c + i) = ?c + i + 1" if "i + 1 < n" for i
    using r that by auto
  moreover have "fat_table b2 ! (?c + n - 1) = 0x0FFFFFFF"
    using r n by (simp add: Nat.add_diff_assoc)
  ultimately show ?thesis
    using f by blast
qed

lemma alloc_phase_ok:
  assumes "next_free_cluster b + n \<le> length (fat_table b)" "0 < n"
  shows "\<exists>b2. ebind (allocate_cluster b) (\<lambda>(first_cluster, b1).
            ebind (alloc_loop [1..<n] first_cluster b1) (\<lambda>b2. Inr (first_cluster, b2)))
         = Inr (next_free_cluster b, b2)"
proof -
  let ?c = "next_free_cluster b"
  let ?b1 = "b\<lparr>fat_table := (fat_table b)[?c := 0x0FFFFFFF], next_free_cluster := ?c + 1\<rparr>"
  have a: "allocate_cluster b = Inr (?c, ?b1)"
    using assms by (simp add: allocate_cluster_ok)
  have "\<exists>b2. alloc_loop [1..<n] ?c ?b1 = Inr b2"
    using assms by (intro alloc_loop_ok) simp_all
  then show ?thesis
    using a by auto
qed

lemma slice_take_append:
  "l \<le> k \<Longrightarrow> k \<le> length xs \<Longrightarrow> slice (take k xs @ ys) i l = slice xs i l"
proof -
  assume a: "l \<le> k" "k \<le> length xs"
  have s: "slice zs i l = drop i (take l zs)" for zs :: "'a list"
    by (cases "i \<le> l") (simp_all add: slice_def drop_take)
  have "take l (take k xs @ ys) = take l xs"
    using a by (simp add: min_def)
  then show ?thesis
    by (simp only: s)
qed

lemma clusters_for_empty: "bytes_per_cluster b = 4096 \<Longrightarrow> clusters_for b [] = 0"
  by (simp add: clusters_for_def)

lemma clusters_for_pos: "bytes_per_cluster b = 4096 \<Longrightarrow> d \<noteq> [] \<Longrightarrow> 0 < clusters_for b d"
  by (cases d) (simp_all add: clusters_for_def)

text \<open>What a successful \<open>add_file_to_directory\<close> has done to the builder.\<close>

lemma add_file_to_directory_Inr:
  assumes ok: "add_file_to_directory b name file_data now = Inr b'" and inv: "builder_inv b"
  defines "n \<equiv> clusters_for b file_data"
    and "ofs \<equiv> cluster_offset b (next_free_cluster b)"
  shows "\<exists>fn fat' dir'.
      fat_filename_of name = Inr fn \<and>
      insert_entry name (read_cluster b 2) fn (if file_data = [] then 0 else next_free_cluster b)
        (length file_data) now = Inr dir' \<and>
      b' = b\<lparr>disk_image :=
               slice_set (take ofs (disk_image b) @ padded_payload b file_data
                          @ drop (ofs + n * 4096) (disk_image b)) 278528 282624 dir',
             fat_table := fat', next_free_cluster := next_free_cluster b + n\<rparr> \<and>
      length fat' = length (fat_table b) \<and>
      next_free_cluster b + n \<le> (if file_data = [] then next_free_cluster b else length (fat_table b)) \<and>
      (\<forall>j. j < next_free_cluster b \<or> next_free_cluster b + n \<le> j \<longrightarrow> fat' ! j = fat_table b ! j) \<and>
      (\<forall>i. i + 1 < n \<longrightarrow> fat' ! (next_free_cluster b + i) = next_free_cluster b + i + 1) \<and>
      (file_data \<noteq> [] \<longrightarrow> fat' ! (next_free_cluster b + n - 1) = 0x0FFFFFFF)"
proof -
  have g: "bytes_per_cluster b = 4096" "sector_size b = 512" "root_cluster b = 2"
    "cluster_to_sector b 2 = 544" "3 \<le> next_free_cluster b" "ofs \<le> length (disk_image b)"
    using inv by (simp_all add: builder_inv_def cluster_to_sector_def ofs_def)
  have ofs: "ofs = 278528 + (next_free_cluster b - 2) * 4096"
    unfolding ofs_def using g(5) by (intro cluster_offset_inv [OF inv]) simp
  have ofs3: "282624 \<le> ofs"
    using g(5) unfolding ofs by simp
  have n: "n = (length file_data + 4096 - 1) div 4096"
    by (simp add: n_def clusters_for_def g)
  have n': "(length file_data + bytes_per_cluster b - 1) div bytes_per_cluster b = n"
    by (simp add: n_def clusters_for_def)
  from ok obtain fn where fn: "fat_filename_of name = Inr fn"
    by (cases "fat_filename_of name") (simp_all add: add_file_to_directory_def)
  define img where "img = take ofs (disk_image b) @ padded_payload b file_data
                          @ drop (ofs + n * 4096) (disk_image b)"
  have dir: "slice img 278528 282624 = read_cluster b 2"
    unfolding img_def read_cluster_def cluster_offset_def g
    using ofs3 g(6) by (simp add: slice_take_append)
  show ?thesis
  proof (cases "file_data = []")
    case True
    have n0: "n = 0"
      using True n by simp
    have "fold (write_chunk b 0 file_data) [0..<n] (disk_image b) = img"
      by (simp add: n0 img_def True padded_payload_def clusters_for_empty [OF g(1)])
    with ok fn obtain dir' where
      d: "insert_entry name (slice img 278528 282624) fn 0 (length file_data) now = Inr dir'"
      and b': "b' = b\<lparr>disk_image := slice_set img 278528 282624 dir'\<rparr>"
      unfolding add_file_to_directory_def Let_def n'
      by (auto simp: ebind_eq_Inr g True)
    show ?thesis
      using fn d b' True n0 unfolding dir img_def [symmetric]
      by (intro exI [of _ fn] exI [of _ "fat_table b"] exI [of _ dir']) simp
  next
    case False
    have npos: "0 < n"
      unfolding n_def by (rule clusters_for_pos [OF g(1) False])
    from ok fn False obtain first b1 b2 dir' where
      a: "allocate_cluster b = Inr (first, b1)" and l: "alloc_loop [1..<n] first b1 = Inr b2"
      and d: "insert_entry name
                (slice (fold (write_chunk b first file_data) [0..<n] (disk_image b2)) 278528 282624)
                fn first (length file_data) now = Inr dir'"
      and b': "b' = b2\<lparr>disk_image :=
                 slice_set (fold (write_chunk b first file_data) [0..<n] (disk_image b2))
                   278528 282624 dir'\<rparr>"
      unfolding add_file_to_directory_def Let_def n'
      by (auto simp: ebind_eq_Inr g)
    note ap = alloc_phase [OF a l npos]
    have first: "first = next_free_cluster b"
      using ap by simp
    have b2: "b2 = b\<lparr>fat_table := fat_table b2, next_free_cluster := next_free_cluster b + n\<rparr>"
      using ap by simp
    have im2: "disk_image b2 = disk_image b"
      by (subst b2) simp
    have "fold (write_chunk b first file_data) [0..<n] (disk_image b2) = img"
      unfolding im2 first img_def n_def ofs_def
      using g(5,6) by (intro fold_write_chunk_all [OF inv]) (simp_all add: ofs_def)
    with d b' have d': "insert_entry name (read_cluster b 2) fn (next_free_cluster b)
                          (length file_data) now = Inr dir'"
      and b'': "b' = b2\<lparr>disk_image := slice_set img 278528 282624 dir'\<rparr>"
      by (simp_all add: dir first)
    have b3: "b' = b\<lparr>disk_image := slice_set img 278528 282624 dir',
                      fat_table := fat_table b2, next_free_cluster := next_free_cluster b + n\<rparr>"
      by (subst b'', subst b2) simp
    show ?thesis
      using fn d' b3 ap False unfolding img_def [symmetric]
      by (intro exI [of _ fn] exI [of _ "fat_table b2"] exI [of _ dir']) simp
  qed
qed

lemma read_cluster_root_length:
  assumes "builder_inv b"
  shows "length (read_cluster b 2) = 4096"
proof -
  have nf: "3 \<le> next_free_cluster b" "cluster_offset b (next_free_cluster b) \<le> length (disk_image b)"
    "bytes_per_cluster b = 4096"
    using assms by (simp_all add: builder_inv_def)
  have "cluster_offset b (next_free_cluster b) = 278528 + (next_free_cluster b - 2) * 4096"
    using nf(1) by (intro cluster_offset_inv [OF assms]) simp
  then have "282624 \<le> length (disk_image b)"
    using nf by simp
  moreover have "cluster_offset b 2 = 278528"
    using cluster_offset_inv [OF assms, of 2] by simp
  ultimately show ?thesis
    using nf(3) by (simp add: read_cluster_def)
qed

lemma length_padded_payload:
  "bytes_per_cluster b = 4096 \<Longrightarrow> length (padded_payload b d) = clusters_for b d * 4096"
  using length_padded [of "clusters_for b d" d]
  by (simp add: padded_payload_def clusters_for_def)

lemma insert_entry_length:
  assumes "insert_entry name d fn fc sz now = Inr d'" "length fn = 11" "length d mod 32 = 0"
  shows "length d' = length d"
proof -
  from insert_entry_Inr [OF assms] obtain i e rest where
    r: "free_slot d i" "length e = 32" "d' = take i d @ e @ rest" "length rest = length d - (i + 32)"
    by blast
  have "i + 32 \<le> length d"
    by (rule free_slot_bound [OF r(1) assms(3)])
  then show ?thesis
    using r by simp
qed

text \<open>The effect of a successful \<open>add_file_to_directory\<close> on the image and the counters.\<close>

lemma add_file_to_directory_effect:
  assumes ok: "add_file_to_directory b name file_data now = Inr b'" and inv: "builder_inv b"
  defines "n \<equiv> clusters_for b file_data"
    and "ofs \<equiv> cluster_offset b (next_free_cluster b)"
  shows "builder_inv b'"
    and "next_free_cluster b' = next_free_cluster b + n"
    and "length (disk_image b') = max (length (disk_image b)) (ofs + n * 4096)"
    and "take 278528 (disk_image b') = take 278528 (disk_image b)"
    and "slice (disk_image b') 282624 ofs = slice (disk_image b) 282624 ofs"
    and "slice (disk_image b') ofs (ofs + n * 4096) = padded_payload b file_data"
    and "size_bytes b' = size_bytes b \<and> total_sectors b' = total_sectors b \<and> size_mb b' = size_mb b"
proof -
  from add_file_to_directory_Inr [OF ok inv] obtain fn fat' dir' where
    fn: "fat_filename_of name = Inr fn"
    and ins: "insert_entry name (read_cluster b 2) fn (if file_data = [] then 0 else next_free_cluster b)
        (length file_data) now = Inr dir'"
    and b': "b' = b\<lparr>disk_image :=
               slice_set (take ofs (disk_image b) @ padded_payload b file_data
                          @ drop (ofs + n * 4096) (disk_image b)) 278528 282624 dir',
             fat_table := fat', next_free_cluster := next_free_cluster b + n\<rparr>"
    and lf: "length fat' = length (fat_table b)"
    unfolding n_def ofs_def by blast
  define img where "img = take ofs (disk_image b) @ padded_payload b file_data
                          @ drop (ofs + n * 4096) (disk_image b)"
  have g: "bytes_per_cluster b = 4096" "3 \<le> next_free_cluster b" "ofs \<le> length (disk_image b)"
    using inv by (simp_all add: builder_inv_def ofs_def)
  have ofs: "ofs = 278528 + (next_free_cluster b - 2) * 4096"
    unfolding ofs_def using g(2) by (intro cluster_offset_inv [OF inv]) simp
  have ofs3: "282624 \<le> ofs"
    using g(2) unfolding ofs by simp
  have lpad: "length (padded_payload b file_data) = n * 4096"
    unfolding n_def by (rule length_padded_payload [OF g(1)])
  have limg: "length img = max (length (disk_image b)) (ofs + n * 4096)"
    using g(3) lpad by (simp add: img_def min_def max_def)
  have ldir: "length dir' = 4096"
    using insert_entry_length [OF ins fat_filename_length [OF fn]] read_cluster_root_length [OF inv]
    by simp
  have im: "disk_image b' = slice_set img 278528 282624 dir'"
    by (subst b') (simp add: img_def)
  have le: "282624 \<le> length img"
    using ofs3 g(3) limg by simp
  show len: "length (disk_image b') = max (length (disk_image b)) (ofs + n * 4096)"
    unfolding im using le ldir limg by simp
  show nf: "next_free_cluster b' = next_free_cluster b + n"
    by (subst b') simp
  have geo: "cluster_offset b' c = cluster_offset b c" for c
    by (subst b') (simp add: cluster_offset_def cluster_to_sector_def)
  have "cluster_offset b (next_free_cluster b + n) = ofs + n * 4096"
    unfolding ofs_def using g(2) by (intro cluster_offset_add [OF inv]) simp
  then have "cluster_offset b' (next_free_cluster b') \<le> length (disk_image b')"
    unfolding geo nf len by simp
  moreover have "length (fat_table b') = 32768"
    using inv lf by (subst b') (simp add: builder_inv_def)
  ultimately show "builder_inv b'"
    using inv nf unfolding builder_inv_def by (subst (1 2 3 4 5 6 7 8 9) b') simp
  show "take 278528 (disk_image b') = take 278528 (disk_image b)"
  proof -
    have "take 278528 (disk_image b') = take 278528 img"
      unfolding im using le by (simp add: take_slice_set)
    also have "\<dots> = take 278528 (disk_image b)"
      unfolding img_def using ofs3 g(3) by (simp add: min_def)
    finally show ?thesis .
  qed
  have after: "slice (disk_image b') k l = slice img k l" if "282624 \<le> k" for k l
    unfolding im using le ldir that by (intro slice_slice_set_after) simp_all
  show "slice (disk_image b') 282624 ofs = slice (disk_image b) 282624 ofs"
    unfolding after [OF order_refl] img_def using g(3) by (simp add: slice_take_append)
  show "slice (disk_image b') ofs (ofs + n * 4096) = padded_payload b file_data"
  proof -
    have "slice img ofs (ofs + n * 4096) = padded_payload b file_data"
      unfolding img_def slice_def using g(3) lpad by (simp add: min_def)
    then show ?thesis
      using after [OF ofs3] by simp
  qed
  show "size_bytes b' = size_bytes b \<and> total_sectors b' = total_sectors b \<and> size_mb b' = size_mb b"
    by (subst (1 2 3) b') simp
qed

lemma concat_read_clusters:
  assumes "builder_inv b" "2 \<le> first"
  shows "concat (map (read_cluster b) [first..<first + n]) =
         slice (disk_image b) (cluster_offset b first) (cluster_offset b first + n * 4096)"
proof (induction n)
  case 0
  then show ?case by (simp add: slice_def)
next
  case (Suc n)
  have bpc: "bytes_per_cluster b = 4096"
    using assms by (simp add: builder_inv_def)
  have "read_cluster b (first + n) =
        slice (disk_image b) (cluster_offset b first + n * 4096) (cluster_offset b first + n * 4096 + 4096)"
    by (simp add: read_cluster_def cluster_offset_add [OF assms] bpc)
  then have "concat (map (read_cluster b) [first..<first + Suc n]) =
        take (n * 4096) (drop (cluster_offset b first) (disk_image b))
        @ take 4096 (drop (n * 4096) (drop (cluster_offset b first) (disk_image b)))"
    using Suc by (simp add: slice_def add.commute)
  also have "\<dots> = take (n * 4096 + 4096) (drop (cluster_offset b first) (disk_image b))"
    by (simp only: take_add)
  finally show ?case
    by (simp add: slice_def add.commute)
qed

lemma add_file_to_directory_dir:
  assumes ok: "add_file_to_directory b name file_data now = Inr b'" and inv: "builder_inv b"
  shows "\<exists>fn. fat_filename_of name = Inr fn \<and>
           insert_entry name (read_cluster b 2) fn
             (if file_data = [] then 0 else next_free_cluster b) (length file_data) now
           = Inr (read_cluster b' 2)"
    and "\<exists>fat'. fat_table b' = fat' \<and> length fat' = length (fat_table b) \<and>
      next_free_cluster b + clusters_for b file_data
         \<le> (if file_data = [] then next_free_cluster b else length (fat_table b)) \<and>
      (\<forall>j. j < next_free_cluster b \<or> next_free_cluster b + clusters_for b file_data \<le> j \<longrightarrow>
           fat' ! j = fat_table b ! j) \<and>
      (\<forall>i. i + 1 < clusters_for b file_data \<longrightarrow>
           fat' ! (next_free_cluster b + i) = next_free_cluster b + i + 1) \<and>
      (file_data \<noteq> [] \<longrightarrow> fat' ! (next_free_cluster b + clusters_for b file_data - 1) = 0x0FFFFFFF)"
proof -
  let ?n = "clusters_for b file_data" and ?ofs = "cluster_offset b (next_free_cluster b)"
  from add_file_to_directory_Inr [OF ok inv] obtain fn fat' dir' where
    fn: "fat_filename_of name = Inr fn"
    and ins: "insert_entry name (read_cluster b 2) fn (if file_data = [] then 0 else next_free_cluster b)
        (length file_data) now = Inr dir'"
    and b': "b' = b\<lparr>disk_image :=
               slice_set (take ?ofs (disk_image b) @ padded_payload b file_data
                          @ drop (?ofs + ?n * 4096) (disk_image b)) 278528 282624 dir',
             fat_table := fat', next_free_cluster := next_free_cluster b + ?n\<rparr>"
    and rest: "length fat' = length (fat_table b) \<and>
      next_free_cluster b + ?n \<le> (if file_data = [] then next_free_cluster b else length (fat_table b)) \<and>
      (\<forall>j. j < next_free_cluster b \<or> next_free_cluster b + ?n \<le> j \<longrightarrow> fat' ! j = fat_table b ! j) \<and>
      (\<forall>i. i + 1 < ?n \<longrightarrow> fat' ! (next_free_cluster b + i) = next_free_cluster b + i + 1) \<and>
      (file_data \<noteq> [] \<longrightarrow> fat' ! (next_free_cluster b + ?n - 1) = 0x0FFFFFFF)"
    by blast
  define img where "img = take ?ofs (disk_image b) @ padded_payload b file_data
                          @ drop (?ofs + ?n * 4096) (disk_image b)"
  have g: "bytes_per_cluster b = 4096" "3 \<le> next_free_cluster b" "?ofs \<le> length (disk_image b)"
    using inv by (simp_all add: builder_inv_def)
  have ofs: "?ofs = 278528 + (next_free_cluster b - 2) * 4096"
    using g(2) by (intro cluster_offset_inv [OF inv]) simp
  have le: "278528 \<le> length img"
    using g(2,3) unfolding ofs img_def by simp
  have ldir: "length dir' = 4096"
    using insert_entry_length [OF ins fat_filename_length [OF fn]] read_cluster_root_length [OF inv]
    by simp
  have ft: "fat_table b' = fat'"
    by (subst b') simp
  have co: "cluster_offset b' 2 = 278528" "bytes_per_cluster b' = 4096"
    using cluster_offset_inv [OF inv, of 2] g(1) 
    by (subst b', simp add: cluster_offset_def cluster_to_sector_def)+
  have im: "disk_image b' = slice_set img 278528 282624 dir'"
    by (subst b') (simp add: img_def)
  have "read_cluster b' 2 = slice (slice_set img 278528 282624 dir') 278528 (278528 + length dir')"
    unfolding read_cluster_def co im ldir by simp
  also have "\<dots> = dir'"
    by (rule slice_slice_set_inside [OF le])
  finally show "\<exists>fn. fat_filename_of name = Inr fn \<and>
           insert_entry name (read_cluster b 2) fn
             (if file_data = [] then 0 else next_free_cluster b) (length file_data) now
           = Inr (read_cluster b' 2)"
    using fn ins by simp
  show "\<exists>fat'. fat_table b' = fat' \<and> length fat' = length (fat_table b) \<and>
      next_free_cluster b + ?n \<le> (if file_data = [] then next_free_cluster b else length (fat_table b)) \<and>
      (\<forall>j. j < next_free_cluster b \<or> next_free_cluster b + ?n \<le> j \<longrightarrow> fat' ! j = fat_table b ! j) \<and>
      (\<forall>i. i + 1 < ?n \<longrightarrow> fat' ! (next_free_cluster b + i) = next_free_cluster b + i + 1) \<and>
      (file_data \<noteq> [] \<longrightarrow> fat' ! (next_free_cluster b + ?n - 1) = 0x0FFFFFFF)"
    using ft rest by blast
qed

lemma dir_free_from_slot:
  assumes "dir_free_from b k" "k < 128" "builder_inv b"
  shows "free_slot (read_cluster b 2) (32 * k)"
proof -
  have len: "length (read_cluster b 2) = 4096"
    by (rule read_cluster_root_length [OF assms(3)])
  have lt: "32 * k < 4096"
    using assms(2) by simp
  have "read_cluster b 2 ! (32 * k) = drop (32 * k) (read_cluster b 2) ! 0"
    using len lt by simp
  also have "\<dots> = 0"
    using assms(1) lt unfolding dir_free_from_def by simp
  finally show ?thesis
    using len lt by (simp add: free_slot_def)
qed

lemma add_file_to_directory_dir_free:
  assumes ok: "add_file_to_directory b name file_data now = Inr b'" and inv: "builder_inv b"
    and free: "dir_free_from b k" and k: "k < 128"
  shows "dir_free_from b' (Suc k)"
proof -
  let ?d = "read_cluster b 2"
  from add_file_to_directory_dir(1) [OF ok inv] obtain fn fc where
    fn: "fat_filename_of name = Inr fn"
    and ins: "insert_entry name ?d fn fc (length file_data) now = Inr (read_cluster b' 2)"
    by blast
  have len: "length ?d = 4096"
    by (rule read_cluster_root_length [OF inv])
  from insert_entry_Inr [OF ins fat_filename_length [OF fn]] len obtain i e rest where
    r: "free_slot ?d i" "\<forall>j < i. \<not> free_slot ?d j" "length e = 32"
      "read_cluster b' 2 = take i ?d @ e @ rest" "length rest = length ?d - (i + 32)"
      "\<forall>p < length rest. rest ! p = ?d ! (i + 32 + p) \<or> rest ! p = 0"
    by auto
  have "\<not> 32 * k < i"
    using r(2) dir_free_from_slot [OF free k inv] by auto
  then have ik: "i \<le> 32 * k"
    by simp
  have ib: "i + 32 \<le> 4096"
    using free_slot_bound [OF r(1)] len by simp
  have lr: "length rest = 4096 - (i + 32)"
    using r(5) len by simp
  have z: "?d ! q = 0" if "32 * k \<le> q" "q < 4096" for q
  proof -
    have "?d ! q = drop (32 * k) ?d ! (q - 32 * k)"
      using that len by simp
    also have "\<dots> = 0"
      using free that unfolding dir_free_from_def by simp
    finally show ?thesis .
  qed
  have lpre: "length (take i ?d @ e) = i + 32"
    using r(3) ib len by simp
  have "drop (32 * Suc k) (read_cluster b' 2) = drop (32 * Suc k - (i + 32)) rest"
    unfolding r(4) using lpre ik by (simp add: r(3) len)
  also have "\<dots> = zeros (4096 - 32 * Suc k)"
  proof (rule nth_equalityI)
    show "length (drop (32 * Suc k - (i + 32)) rest) = length (zeros (4096 - 32 * Suc k))"
      using lr ik k by simp
  next
    fix p assume p: "p < length (drop (32 * Suc k - (i + 32)) rest)"
    then have p': "32 * Suc k - (i + 32) + p < length rest"
      by simp
    have "rest ! (32 * Suc k - (i + 32) + p) = 0"
    proof -
      have "?d ! (i + 32 + (32 * Suc k - (i + 32) + p)) = 0"
        using ik p' lr by (intro z) simp_all
      with r(6) p' show ?thesis
        by auto
    qed
    moreover have "p < 4096 - 32 * Suc k"
      using p lr ik by simp
    ultimately show "drop (32 * Suc k - (i + 32)) rest ! p = zeros (4096 - 32 * Suc k) ! p"
      using p' by simp
  qed
  finally show ?thesis
    using k by (simp add: dir_free_from_def)
qed

lemma add_file_to_directory_ok:
  assumes inv: "builder_inv b" and slot: "free_slot (read_cluster b 2) i"
    and fn: "fat_filename_of name = Inr fn" and now: "now_ok now"
    and cap: "next_free_cluster b + clusters_for b file_data \<le> 32768"
  shows "\<exists>b'. add_file_to_directory b name file_data now = Inr b'"
proof -
  define n where "n = clusters_for b file_data"
  define ofs where "ofs = cluster_offset b (next_free_cluster b)"
  have g: "bytes_per_cluster b = 4096" "sector_size b = 512" "root_cluster b = 2"
    "cluster_to_sector b 2 = 544" "3 \<le> next_free_cluster b" "ofs \<le> length (disk_image b)"
    "length (fat_table b) = 32768"
    using inv by (simp_all add: builder_inv_def cluster_to_sector_def ofs_def)
  have ofs: "ofs = 278528 + (next_free_cluster b - 2) * 4096"
    unfolding ofs_def using g(5) by (intro cluster_offset_inv [OF inv]) simp
  have ofs3: "282624 \<le> ofs"
    using g(5) unfolding ofs by simp
  have n: "n = (length file_data + 4096 - 1) div 4096"
    by (simp add: n_def clusters_for_def g)
  have n': "(length file_data + bytes_per_cluster b - 1) div bytes_per_cluster b = n"
    by (simp add: n_def clusters_for_def)
  have lfn: "length fn = 11"
    by (rule fat_filename_length [OF fn])
  have "length file_data \<le> n * 4096"
    using clusters_bounds [OF n] by simp
  moreover have "n \<le> 32768"
    using cap by (simp add: n_def)
  ultimately have sz: "length file_data < 2 ^ 32"
    by simp
  have fc: "next_free_cluster b < 2 ^ 32"
    using cap by simp
  define img where "img = take ofs (disk_image b) @ padded_payload b file_data
                          @ drop (ofs + n * 4096) (disk_image b)"
  have dir: "slice img 278528 282624 = read_cluster b 2"
    unfolding img_def read_cluster_def cluster_offset_def g
    using ofs3 g(6) by (simp add: slice_take_append)
  show ?thesis
  proof (cases "file_data = []")
    case True
    have n0: "n = 0"
      using True n by simp
    have f: "fold (write_chunk b 0 file_data) [0..<n] (disk_image b) = img"
      by (simp add: n0 img_def True padded_payload_def clusters_for_empty [OF g(1)])
    obtain d' where "insert_entry name (read_cluster b 2) fn 0 (length file_data) now = Inr d'"
      using insert_entry_ok [OF slot now _ sz lfn, of 0 name] by auto
    then show ?thesis
      unfolding add_file_to_directory_def Let_def n'
      using fn True f dir by (simp add: g)
  next
    case False
    have npos: "0 < n"
      unfolding n_def by (rule clusters_for_pos [OF g(1) False])
    from alloc_phase_ok [of b n] cap npos obtain b2 where
      ph: "ebind (allocate_cluster b) (\<lambda>(first_cluster, b1).
            ebind (alloc_loop [1..<n] first_cluster b1) (\<lambda>b2. Inr (first_cluster, b2)))
         = Inr (next_free_cluster b, b2)"
      by (auto simp: g n_def)
    then obtain b1 where a: "allocate_cluster b = Inr (next_free_cluster b, b1)"
      and l: "alloc_loop [1..<n] (next_free_cluster b) b1 = Inr b2"
      by (auto simp: ebind_eq_Inr)
    have b2: "b2 = b\<lparr>fat_table := fat_table b2, next_free_cluster := next_free_cluster b + n\<rparr>"
      using alloc_phase [OF a l npos] by simp
    have im2: "disk_image b2 = disk_image b"
      by (subst b2) simp
    have f: "fold (write_chunk b (next_free_cluster b) file_data) [0..<n] (disk_image b2) = img"
      unfolding im2 img_def n_def ofs_def
      using g(5,6) by (intro fold_write_chunk_all [OF inv]) (simp_all add: ofs_def)
    obtain d' where "insert_entry name (read_cluster b 2) fn (next_free_cluster b)
                       (length file_data) now = Inr d'"
      using insert_entry_ok [OF slot now fc sz lfn, of name] by auto
    then show ?thesis
      unfolding add_file_to_directory_def Let_def n'
      using fn False ph f dir by (simp add: g)
  qed
qed

lemma builder_inv_init: "1 \<le> mb \<Longrightarrow> builder_inv (Fat32DiskBuilder mb)"
  by (simp add: builder_inv_def Fat32DiskBuilder_def cluster_offset_def cluster_to_sector_def)

lemma dir_free_from_init:
  assumes "1 \<le> mb"
  shows "dir_free_from (Fat32DiskBuilder mb) 0"
proof -
  have "4096 \<le> mb * 1024 * 1024 - 278528"
    using assms by simp
  then show ?thesis
    by (simp add: dir_free_from_def read_cluster_def Fat32DiskBuilder_def cluster_offset_def
        cluster_to_sector_def slice_def min_def)
qed

lemma slice_of_slice:
  assumes "slice xs a (a + m) = ys" "k + l \<le> m"
  shows "slice xs (a + k) (a + k + l) = slice ys k (k + l)"
proof -
  have "slice ys k (k + l) = take l (drop k (take m (drop a xs)))"
    using assms(1) by (simp add: slice_def)
  also have "\<dots> = take l (take (m - k) (drop k (drop a xs)))"
    by (simp only: drop_take)
  also have "\<dots> = take l (drop (a + k) xs)"
    using assms(2) by (simp add: min_def add.commute)
  finally show ?thesis
    by (simp add: slice_def)
qed

lemma add_file_to_directory_entry:
  assumes ok: "add_file_to_directory b name file_data now = Inr b'" and inv: "builder_inv b"
  shows "\<exists>i fn e. free_slot (read_cluster b 2) i \<and> (\<forall>j < i. \<not> free_slot (read_cluster b 2) j) \<and>
           fat_filename_of name = Inr fn \<and>
           make_entry fn (if file_data = [] then 0 else next_free_cluster b) (length file_data) now = Inr e \<and>
           slice (read_cluster b' 2) i (i + 32) = e \<and>
           take i (read_cluster b' 2) = take i (read_cluster b 2)"
proof -
  let ?d = "read_cluster b 2" and ?fc = "if file_data = [] then 0 else next_free_cluster b"
  from add_file_to_directory_dir(1) [OF ok inv] obtain fn where
    fn: "fat_filename_of name = Inr fn"
    and ins: "insert_entry name ?d fn ?fc (length file_data) now = Inr (read_cluster b' 2)"
    by blast
  have len: "length ?d = 4096"
    by (rule read_cluster_root_length [OF inv])
  from insert_entry_Inr [OF ins fat_filename_length [OF fn]] len obtain i e rest where
    r: "free_slot ?d i" "\<forall>j < i. \<not> free_slot ?d j" "make_entry fn ?fc (length file_data) now = Inr e"
      "length e = 32" "read_cluster b' 2 = take i ?d @ e @ rest"
    by auto
  have li: "length (take i ?d) = i"
    using r(1) by (simp add: free_slot_def)
  have "slice (read_cluster b' 2) i (i + 32) = e"
    unfolding r(5) slice_def using li r(4) by simp
  moreover have "take i (read_cluster b' 2) = take i ?d"
    unfolding r(5) using li by simp
  ultimately show ?thesis
    using r fn by blast
qed

lemma fat_filename_sample: "fat_filename_of ''HELLO.TXT'' = Inr (bytes_of ''HELLO   TXT'')"
  by code_simp

lemma now_ok_sample: "now_ok sample_now"
  by (simp add: now_ok_def sample_now_def)

lemma add_sample_ok:
  assumes "length file_data \<le> 4096"
  shows "\<exists>b'. add_file_to_directory (Fat32DiskBuilder 32) ''HELLO.TXT'' file_data sample_now = Inr b'"
proof -
  have inv: "builder_inv (Fat32DiskBuilder 32)"
    by (rule builder_inv_init) simp
  have "free_slot (read_cluster (Fat32DiskBuilder 32) 2) (32 * 0)"
    by (rule dir_free_from_slot [OF dir_free_from_init _ inv]) simp_all
  moreover have "clusters_for (Fat32DiskBuilder 32) file_data \<le> 1"
    using assms by (simp add: clusters_for_def Fat32DiskBuilder_def)
  then have "next_free_cluster (Fat32DiskBuilder 32) + clusters_for (Fat32DiskBuilder 32) file_data \<le> 32768"
    by (simp add: Fat32DiskBuilder_def)
  ultimately show ?thesis
    using add_file_to_directory_ok [OF inv _ fat_filename_sample now_ok_sample] by blast
qed

text \<open>
  C10. The FAT chain of a file is the run of consecutive clusters
  \<open>firstCluster, firstCluster + 1, \<dots>, firstCluster + n - 1\<close>, the allocator counter
  advances by exactly \<open>n\<close>, and the copy loop has put chunk \<open>i\<close> of the payload into
  cluster \<open>firstCluster + i\<close>: the clusters written are the clusters linked.
\<close>

theorem chain_is_consecutive:
  assumes inv: "builder_inv b" and ne: "file_data \<noteq> []"
    and ok: "add_file_to_directory b name file_data now = Inr b'"
  shows "fat_chain (table_entry (fat_table b')) (length (fat_table b')) (next_free_cluster b)
           = Some [next_free_cluster b..<next_free_cluster b + clusters_for b file_data] \<and>
         next_free_cluster b' = next_free_cluster b + clusters_for b file_data \<and>
         (\<forall>i < clusters_for b file_data.
            read_cluster b' (next_free_cluster b + i) =
            slice (padded_payload b file_data) (i * bytes_per_cluster b) ((i + 1) * bytes_per_cluster b))"
proof -
  let ?n = "clusters_for b file_data" and ?f = "next_free_cluster b"
  have g: "bytes_per_cluster b = 4096" "3 \<le> ?f" "length (fat_table b) = 32768"
    using inv by (simp_all add: builder_inv_def)
  have npos: "0 < ?n"
    by (rule clusters_for_pos [OF g(1) ne])
  from add_file_to_directory_dir(2) [OF ok inv] ne have
    lf: "length (fat_table b') = 32768" and cap: "?f + ?n \<le> 32768"
    and link: "\<And>i. i + 1 < ?n \<Longrightarrow> fat_table b' ! (?f + i) = ?f + i + 1"
    and last: "fat_table b' ! (?f + ?n - 1) = 0x0FFFFFFF"
    by (simp_all add: g)
  have chain: "fat_chain (table_entry (fat_table b')) (length (fat_table b')) ?f = Some [?f..<?f + ?n]"
  proof (rule fat_chain_consecutive)
    show "table_entry (fat_table b') (?f + i) = Some (?f + i + 1)" if "i + 1 < ?n" for i
      using link [OF that] that cap lf by (simp add: table_entry_def)
    show "?f + ?n \<le> 0x0FFFFFF8"
      using cap by simp
    show "table_entry (fat_table b') (?f + ?n - 1) = Some 0x0FFFFFFF"
      using last npos cap lf by (simp add: table_entry_def)
    show "is_eoc 0x0FFFFFFF"
      by (simp add: is_eoc_def)
    show "0 < ?n" by fact
    show "?n \<le> length (fat_table b')"
      using cap lf by simp
  qed
  note eff = add_file_to_directory_effect [OF ok inv]
  have inv': "builder_inv b'" by (rule eff(1))
  have co: "cluster_offset b' c = cluster_offset b c" for c
    using inv inv' by (simp add: cluster_offset_def cluster_to_sector_def builder_inv_def)
  have chunk: "read_cluster b' (?f + i) = slice (padded_payload b file_data) (i * 4096) ((i + 1) * 4096)"
    if "i < ?n" for i
  proof -
    have "read_cluster b' (?f + i) =
          slice (disk_image b') (cluster_offset b ?f + i * 4096) (cluster_offset b ?f + i * 4096 + 4096)"
      using g(2) inv' by (simp add: read_cluster_def co cluster_offset_add [OF inv] builder_inv_def)
    also have "\<dots> = slice (padded_payload b file_data) (i * 4096) (i * 4096 + 4096)"
      using that by (intro slice_of_slice [OF eff(6)]) simp
    finally show ?thesis
      by (simp add: add.commute)
  qed
  show ?thesis
    using chain eff(2) chunk by (simp add: g)
qed

theorem chain_is_consecutive_witness:
  "\<exists>b'. add_file_to_directory (Fat32DiskBuilder 32) ''HELLO.TXT'' [72, 105] sample_now = Inr b' \<and>
     fat_chain (table_entry (fat_table b')) (length (fat_table b')) 3 = Some [3] \<and>
     next_free_cluster b' = 4 \<and>
     read_cluster b' 3 = [72, 105] @ zeros 4094"
proof -
  let ?b = "Fat32DiskBuilder 32"
  obtain b' where ok: "add_file_to_directory ?b ''HELLO.TXT'' [72, 105] sample_now = Inr b'"
    using add_sample_ok [of "[72, 105]"] by auto
  have inv: "builder_inv ?b"
    by (rule builder_inv_init) simp
  have n: "clusters_for ?b [72, 105] = 1" "next_free_cluster ?b = 3" "bytes_per_cluster ?b = 4096"
    by (simp_all add: clusters_for_def Fat32DiskBuilder_def)
  have pad: "slice (padded_payload ?b [72, 105]) 0 4096 = [72, 105] @ zeros 4094"
    by (simp add: padded_payload_def n slice_def)
  from chain_is_consecutive [OF inv _ ok] show ?thesis
    using ok pad by (intro exI [of _ b']) (simp add: n)
qed

lemma add_file_to_directory_chain:
  assumes inv: "builder_inv b" and ne: "file_data \<noteq> []"
    and ok: "add_file_to_directory b name file_data now = Inr b'"
  shows "fat_chain (table_entry (fat_table b')) (length (fat_table b')) (next_free_cluster b)
           = Some [next_free_cluster b..<next_free_cluster b + clusters_for b file_data]"
proof -
  let ?n = "clusters_for b file_data" and ?f = "next_free_cluster b"
  have g: "bytes_per_cluster b = 4096" "3 \<le> ?f" "length (fat_table b) = 32768"
    using inv by (simp_all add: builder_inv_def)
  have npos: "0 < ?n"
    by (rule clusters_for_pos [OF g(1) ne])
  from add_file_to_directory_dir(2) [OF ok inv] ne have
    lf: "length (fat_table b') = 32768" and cap: "?f + ?n \<le> 32768"
    and link: "\<And>i. i + 1 < ?n \<Longrightarrow> fat_table b' ! (?f + i) = ?f + i + 1"
    and last: "fat_table b' ! (?f + ?n - 1) = 0x0FFFFFFF"
    by (simp_all add: g)
  show ?thesis
  proof (rule fat_chain_consecutive)
    show "table_entry (fat_table b') (?f + i) = Some (?f + i + 1)" if "i + 1 < ?n" for i
      using link [OF that] that cap lf by (simp add: table_entry_def)
    show "?f + ?n \<le> 0x0FFFFFF8"
      using cap by simp
    show "table_entry (fat_table b') (?f + ?n - 1) = Some 0x0FFFFFFF"
      using last npos cap lf by (simp add: table_entry_def)
    show "is_eoc 0x0FFFFFFF"
      by (simp add: is_eoc_def)
    show "0 < ?n" by fact
    show "?n \<le> length (fat_table b')"
      using cap lf by simp
  qed
qed

text \<open>
  C1. Round trip. After a file with a non-empty payload has been added, the FAT chain that
  starts at the first cluster recorded in the file's new directory entry exists, and the
  clusters of that chain, each read at the image offset \<open>clusterToSector\<close> gives it and
  concatenated in chain order, are the payload followed by zero bytes only, fewer than one
  cluster of them. The directory entry records the payload's length.
\<close>

theorem payload_roundtrip:
  assumes inv: "builder_inv b" and ne: "file_data \<noteq> []"
    and ok: "add_file_to_directory b name file_data now = Inr b'"
  shows "\<exists>i cs. free_slot (read_cluster b 2) i \<and>
           entry_size (slice (read_cluster b' 2) i (i + 32)) = length file_data \<and>
           fat_chain (table_entry (fat_table b')) (length (fat_table b'))
             (entry_first_cluster (slice (read_cluster b' 2) i (i + 32))) = Some cs \<and>
           concat (map (read_cluster b') cs) =
             file_data @ zeros (length cs * bytes_per_cluster b' - length file_data) \<and>
           length cs * bytes_per_cluster b' - length file_data < bytes_per_cluster b'"
proof -
  let ?n = "clusters_for b file_data" and ?f = "next_free_cluster b"
  have g: "bytes_per_cluster b = 4096" "3 \<le> ?f"
    using inv by (simp_all add: builder_inv_def)
  note eff = add_file_to_directory_effect [OF ok inv]
  have g': "bytes_per_cluster b' = 4096"
    using eff(1) by (simp add: builder_inv_def)
  have co: "cluster_offset b' c = cluster_offset b c" for c
    using inv eff(1) by (simp add: cluster_offset_def cluster_to_sector_def builder_inv_def)
  from add_file_to_directory_entry [OF ok inv] ne obtain i fn e where
    e: "free_slot (read_cluster b 2) i" "fat_filename_of name = Inr fn"
      "make_entry fn ?f (length file_data) now = Inr e" "slice (read_cluster b' 2) i (i + 32) = e"
    by auto
  have lfn: "length fn = 11"
    by (rule fat_filename_length [OF e(2)])
  have fc: "entry_first_cluster e = ?f" and sz: "entry_size e = length file_data"
    by (rule make_entry_Inr [OF e(3) lfn])+
  have chain: "fat_chain (table_entry (fat_table b')) (length (fat_table b')) ?f = Some [?f..<?f + ?n]"
    by (rule add_file_to_directory_chain [OF inv ne ok])
  have "concat (map (read_cluster b') [?f..<?f + ?n]) =
        slice (disk_image b') (cluster_offset b ?f) (cluster_offset b ?f + ?n * 4096)"
    using concat_read_clusters [OF eff(1), of ?f ?n] g(2) by (simp add: co)
  also have "\<dots> = padded_payload b file_data"
    by (rule eff(6))
  finally have rd: "concat (map (read_cluster b') [?f..<?f + ?n]) =
                    file_data @ zeros (?n * 4096 - length file_data)"
    by (simp add: padded_payload_def g)
  have "?n * 4096 < length file_data + 4096"
    using clusters_bounds(2) [of ?n "length file_data"] by (simp add: clusters_for_def g)
  then have lt: "?n * 4096 - length file_data < 4096"
    by simp
  show ?thesis
    using e(1) chain rd lt
    by (intro exI [of _ i] exI [of _ "[?f..<?f + ?n]"]) (simp add: e(4) fc sz g')
qed

theorem payload_roundtrip_witness:
  "\<exists>b' i cs.
     add_file_to_directory (Fat32DiskBuilder 32) ''HELLO.TXT'' [72, 105] sample_now = Inr b' \<and>
     builder_inv (Fat32DiskBuilder 32) \<and>
     free_slot (read_cluster (Fat32DiskBuilder 32) 2) i \<and>
     entry_size (slice (read_cluster b' 2) i (i + 32)) = 2 \<and>
     fat_chain (table_entry (fat_table b')) (length (fat_table b'))
       (entry_first_cluster (slice (read_cluster b' 2) i (i + 32))) = Some cs \<and>
     concat (map (read_cluster b') cs) = [72, 105] @ zeros (length cs * bytes_per_cluster b' - 2) \<and>
     length cs * bytes_per_cluster b' - 2 < bytes_per_cluster b'"
proof -
  let ?b = "Fat32DiskBuilder 32"
  obtain b' where ok: "add_file_to_directory ?b ''HELLO.TXT'' [72, 105] sample_now = Inr b'"
    using add_sample_ok [of "[72, 105]"] by auto
  have inv: "builder_inv ?b"
    by (rule builder_inv_init) simp
  have "[72, 105] \<noteq> ([] :: byte list)"
    by simp
  from payload_roundtrip [OF inv this ok] obtain i cs where
    "free_slot (read_cluster ?b 2) i \<and>
     entry_size (slice (read_cluster b' 2) i (i + 32)) = length [72 :: byte, 105] \<and>
     fat_chain (table_entry (fat_table b')) (length (fat_table b'))
       (entry_first_cluster (slice (read_cluster b' 2) i (i + 32))) = Some cs \<and>
     concat (map (read_cluster b') cs) =
       [72, 105] @ zeros (length cs * bytes_per_cluster b' - length [72 :: byte, 105]) \<and>
     length cs * bytes_per_cluster b' - length [72 :: byte, 105] < bytes_per_cluster b'"
    by blast
  then show ?thesis
    using ok inv by (intro exI [of _ b'] exI [of _ i] exI [of _ cs]) (simp add: numeral_2_eq_2)
qed

text \<open>
  C7. Adding a zero-byte file allocates nothing: the allocator counter and the whole FAT
  are unchanged, and the directory entry written into the first free slot records first
  cluster 0 and size 0.
\<close>

theorem empty_file_allocates_nothing:
  assumes inv: "builder_inv b"
    and ok: "add_file_to_directory b name [] now = Inr b'"
  shows "next_free_cluster b' = next_free_cluster b \<and> fat_table b' = fat_table b \<and>
         (\<exists>i. free_slot (read_cluster b 2) i \<and> (\<forall>j < i. \<not> free_slot (read_cluster b 2) j) \<and>
              entry_first_cluster (slice (read_cluster b' 2) i (i + 32)) = 0 \<and>
              entry_size (slice (read_cluster b' 2) i (i + 32)) = 0)"
proof -
  have g: "bytes_per_cluster b = 4096"
    using inv by (simp add: builder_inv_def)
  have n0: "clusters_for b [] = 0"
    by (rule clusters_for_empty [OF g])
  have nf: "next_free_cluster b' = next_free_cluster b"
    using add_file_to_directory_effect(2) [OF ok inv] n0 by simp
  from add_file_to_directory_dir(2) [OF ok inv] have
    "length (fat_table b') = length (fat_table b)" "\<And>j. fat_table b' ! j = fat_table b ! j"
    by (auto simp: n0)
  then have fat: "fat_table b' = fat_table b"
    by (intro nth_equalityI) simp_all
  from add_file_to_directory_entry [OF ok inv] obtain i fn e where
    e: "free_slot (read_cluster b 2) i" "\<forall>j < i. \<not> free_slot (read_cluster b 2) j"
      "fat_filename_of name = Inr fn" "make_entry fn 0 0 now = Inr e"
      "slice (read_cluster b' 2) i (i + 32) = e"
    by auto
  have lfn: "length fn = 11"
    by (rule fat_filename_length [OF e(3)])
  have "entry_first_cluster e = 0" "entry_size e = 0"
    by (rule make_entry_Inr [OF e(4) lfn])+
  then show ?thesis
    using nf fat e by blast
qed

theorem empty_file_allocates_nothing_witness:
  "\<exists>b'. add_file_to_directory (Fat32DiskBuilder 32) ''HELLO.TXT'' [] sample_now = Inr b' \<and>
     builder_inv (Fat32DiskBuilder 32) \<and>
     next_free_cluster b' = 3 \<and> fat_table b' = fat_table (Fat32DiskBuilder 32) \<and>
     (\<exists>i. free_slot (read_cluster (Fat32DiskBuilder 32) 2) i \<and>
          entry_first_cluster (slice (read_cluster b' 2) i (i + 32)) = 0 \<and>
          entry_size (slice (read_cluster b' 2) i (i + 32)) = 0)"
proof -
  let ?b = "Fat32DiskBuilder 32"
  obtain b' where ok: "add_file_to_directory ?b ''HELLO.TXT'' [] sample_now = Inr b'"
    using add_sample_ok [of "[]"] by auto
  have inv: "builder_inv ?b"
    by (rule builder_inv_init) simp
  have nf: "next_free_cluster ?b = 3"
    by (simp add: Fat32DiskBuilder_def)
  from empty_file_allocates_nothing [OF inv ok] show ?thesis
    using ok inv unfolding nf by blast
qed

lemma length_bytes_of [simp]: "length (bytes_of s) = length s"
  by (simp add: bytes_of_def)

lemma length_fold_update: "length (fold (\<lambda>i s. s[i := v]) js xs) = length xs"
  by (induction js arbitrary: xs) simp_all

lemma nth_fold_update: "k \<notin> set js \<Longrightarrow> fold (\<lambda>i s. s[i := v]) js xs ! k = xs ! k"
  by (induction js arbitrary: xs) auto

lemma pack_into_nth_before:
  "pack_into w buf off v = Inr buf' \<Longrightarrow> k < off \<Longrightarrow> buf' ! k = buf ! k"
  by (auto dest!: pack_into_Inr simp: nth_slice_set_before)

text \<open>The boot sector of build\_disk.py: 512 bytes that start with the jump opcode 0xEB.\<close>

lemma create_boot_sector_ok:
  assumes inv: "builder_inv b" and ts: "total_sectors b < 2 ^ 32"
  shows "\<exists>boot. create_boot_sector b = Inr (b\<lparr>disk_image := slice_set (disk_image b) 0 512 boot\<rparr>) \<and>
           length boot = 512 \<and> boot ! 0 = 0xEB"
proof -
  have g: "sector_size b = 512" "sectors_per_cluster b = 8" "reserved_sectors b = 32"
    "fat_count b = 2" "root_cluster b = 2" "sectors_per_fat b = 256"
    using inv by (simp_all add: builder_inv_def)
  define s2 where "s2 = slice_set (slice_set (zeros 512) 0 3 [0xEB, 0x58, 0x90]) 3 11 (bytes_of ''NumOS   '')"
  define f1 where "f1 = [(2, 11, int (sector_size b)), (1, 13, int (sectors_per_cluster b)),
      (2, 14, int (reserved_sectors b)), (1, 16, int (fat_count b)), (2, 17, 0), (2, 19, 0),
      (1, 21, 0xF8), (2, 22, 0), (2, 24, 63), (2, 26, 255), (4, 28, 0),
      (4, 32, int (total_sectors b)), (4, 36, int (sectors_per_fat b)), (2, 40, 0), (2, 42, 0),
      (4, 44, int (root_cluster b)), (2, 48, 1), (2::nat, 50::nat, 6::int)]"
  define f2 where "f2 = [(1, 64, 0x80), (1, 65, 0), (1, 66, 0x29), (4::nat, 67::nat, 0x12345678::int)]"
  have l2: "length s2 = 512"
    by (simp add: s2_def length_slice_set)
  have h2: "s2 ! 0 = 0xEB"
    by (simp add: s2_def slice_set_def)
  have "int (total_sectors b) < 4294967296"
    using ts by simp
  then have "list_all (\<lambda>(w, off, v). 0 \<le> v \<and> v < 2 ^ (8 * w) \<and> off + w \<le> length s2) f1"
    by (simp add: f1_def l2 g)
  from pack_fields_ok [OF this] obtain s3 where s3: "pack_fields s2 f1 = Inr s3"
    by auto
  have l3: "length s3 = 512"
    using pack_fields_length [OF s3] l2 by simp
  have h3: "s3 ! 0 = 0xEB"
    using pack_fields_nth_before [OF s3, of 0] h2 by (simp add: f1_def)
  define s4 where "s4 = fold (\<lambda>i s. s[i := 0]) [52..<64] s3"
  have l4: "length s4 = 512"
    by (simp add: s4_def length_fold_update l3)
  have h4: "s4 ! 0 = 0xEB"
    unfolding s4_def using h3 by (subst nth_fold_update) simp_all
  have "list_all (\<lambda>(w, off, v). 0 \<le> v \<and> v < 2 ^ (8 * w) \<and> off + w \<le> length s4) f2"
    by (simp add: f2_def l4)
  from pack_fields_ok [OF this] obtain s5 where s5: "pack_fields s4 f2 = Inr s5"
    by auto
  have l5: "length s5 = 512"
    using pack_fields_length [OF s5] l4 by simp
  have h5: "s5 ! 0 = 0xEB"
    using pack_fields_nth_before [OF s5, of 0] h4 by (simp add: f2_def)
  define s7 where "s7 = slice_set (slice_set s5 71 82 (bytes_of ''NumOS FAT32'')) 82 90 (bytes_of ''FAT32   '')"
  have l7: "length s7 = 512"
    by (simp add: s7_def length_slice_set l5)
  have h7: "s7 ! 0 = 0xEB"
    using h5 l5 by (simp add: s7_def nth_slice_set_before length_slice_set)
  define boot where "boot = slice_set s7 510 512 (le_bytes 2 0xAA55)"
  have pb: "pack_into 2 s7 510 0xAA55 = Inr boot"
    unfolding boot_def using l7 by (subst pack_into_ok) simp_all
  have lb: "length boot = 512"
    using pack_into_length [OF pb] l7 by simp
  have hb: "boot ! 0 = 0xEB"
    using pack_into_nth_before [OF pb, of 0] h7 by simp
  have "create_boot_sector b = Inr (b\<lparr>disk_image := slice_set (disk_image b) 0 512 boot\<rparr>)"
    by (simp only: create_boot_sector_def Let_def s2_def [symmetric] f1_def [symmetric]
        f2_def [symmetric] s3 ebind_Inr s4_def [symmetric] s5 s7_def [symmetric] pb)
  then show ?thesis
    using lb hb by blast
qed

lemma create_fsinfo_ok:
  "\<exists>fsinfo. create_fsinfo b = Inr (b\<lparr>disk_image := slice_set (disk_image b) 512 1024 fsinfo\<rparr>) \<and>
     length fsinfo = 512"
proof -
  define f where "f = [(4, 0, 0x41615252), (4, 484, 0x61417272), (4, 488, 0xFFFFFFFF), (4, 492, 3),
      (2::nat, 510::nat, 0xAA55::int)]"
  have "list_all (\<lambda>(w, off, v). 0 \<le> v \<and> v < 2 ^ (8 * w) \<and> off + w \<le> length (zeros 512)) f"
    by (simp add: f_def)
  from pack_fields_ok [OF this] obtain fsinfo where p: "pack_fields (zeros 512) f = Inr fsinfo"
    by auto
  have "length fsinfo = 512"
    using pack_fields_length [OF p] by simp
  moreover have "create_fsinfo b = Inr (b\<lparr>disk_image := slice_set (disk_image b) 512 1024 fsinfo\<rparr>)"
    by (simp only: create_fsinfo_def f_def [symmetric] p ebind_Inr)
  ultimately show ?thesis
    by blast
qed

lemma initialize_fat_ok:
  assumes "3 \<le> length (fat_table b)"
  shows "initialize_fat b =
         Inr (b\<lparr>fat_table := (fat_table b)[0 := 0x0FFFFF00 OR 0xF8, 1 := 0x0FFFFFFF, 2 := 0x0FFFFFFF]\<rparr>)"
  using assms by (auto simp: initialize_fat_def list_set_def)

lemma create_root_directory_eq:
  assumes "builder_inv b"
  shows "\<exists>root_data. create_root_directory b = b\<lparr>disk_image := slice_set (disk_image b) 278528 282624 root_data\<rparr> \<and>
           length root_data = 4096 \<and> drop 32 root_data = zeros 4064"
proof -
  have g: "bytes_per_cluster b = 4096" "sector_size b = 512" "root_cluster b = 2"
    "cluster_to_sector b 2 = 544"
    using assms by (simp_all add: builder_inv_def cluster_to_sector_def)
  define ve where "ve = (slice_set (zeros 32) 0 11 (bytes_of ''NumOS FAT32''))[11 := 0x08]"
  define root_data where "root_data = slice_set (zeros 4096) 0 32 ve"
  have lve: "length ve = 32"
    by (simp add: ve_def length_slice_set)
  have "length root_data = 4096" "drop 32 root_data = zeros 4064"
    using lve by (simp_all add: root_data_def slice_set_def)
  moreover have "create_root_directory b = b\<lparr>disk_image := slice_set (disk_image b) 278528 282624 root_data\<rparr>"
    by (simp only: create_root_directory_def Let_def g ve_def [symmetric] root_data_def [symmetric]) simp
  ultimately show ?thesis
    by blast
qed

lemma clusters_for_payload: "builder_inv b \<Longrightarrow> clusters_for b d = payload_clusters d"
  by (simp add: clusters_for_def payload_clusters_def builder_inv_def)

lemma main_inv_add_file_to_directory:
  assumes ok: "add_file_to_directory b name file_data now = Inr b'" and mi: "main_inv b"
  shows "main_inv b'" and "next_free_cluster b' = next_free_cluster b + payload_clusters file_data"
proof -
  have inv: "builder_inv b"
    using mi by (simp add: main_inv_def)
  let ?n = "clusters_for b file_data" and ?f = "next_free_cluster b"
  note eff = add_file_to_directory_effect [OF ok inv]
  have g: "3 \<le> ?f" "length (fat_table b) = 32768"
    using inv by (simp_all add: builder_inv_def)
  show nf: "next_free_cluster b' = ?f + payload_clusters file_data"
    using eff(2) clusters_for_payload [OF inv] by simp
  have co: "cluster_offset b' c = cluster_offset b c" for c
    using inv eff(1) by (simp add: cluster_offset_def cluster_to_sector_def builder_inv_def)
  have ofs: "cluster_offset b (?f + ?n) = cluster_offset b ?f + ?n * 4096"
    using g(1) by (intro cluster_offset_add [OF inv]) simp
  have len: "length (disk_image b') = max 33554432 (cluster_offset b' (next_free_cluster b'))"
    using eff(3) mi unfolding co eff(2) ofs by (simp add: main_inv_def)
  from add_file_to_directory_dir(2) [OF ok inv] have
    lf: "length (fat_table b') = 32768"
    and cap: "file_data \<noteq> [] \<Longrightarrow> ?f + ?n \<le> 32768"
    and same: "\<And>j. j < ?f \<or> ?f + ?n \<le> j \<Longrightarrow> fat_table b' ! j = fat_table b ! j"
    and link: "\<And>i. i + 1 < ?n \<Longrightarrow> fat_table b' ! (?f + i) = ?f + i + 1"
    and last: "file_data \<noteq> [] \<Longrightarrow> fat_table b' ! (?f + ?n - 1) = 0x0FFFFFFF"
    by (auto simp: g)
  have old: "fat_table b ! j < 2 ^ 32" if "j < 32768" for j
    using mi that g(2) by (simp add: main_inv_def list_all_length)
  have "fat_table b' ! j < 2 ^ 32" if j: "j < 32768" for j
  proof (cases "j < ?f \<or> ?f + ?n \<le> j")
    case True
    then show ?thesis
      using same [of j] old [OF j] by simp
  next
    case False
    then have ne: "file_data \<noteq> []"
      using clusters_for_empty [of b] inv by (auto simp: builder_inv_def)
    obtain i where i: "j = ?f + i" "i < ?n"
      using False by (metis add_diff_inverse_nat nat_add_left_cancel_less not_le)
    show ?thesis
    proof (cases "i + 1 < ?n")
      case True
      then show ?thesis
        using link [of i] cap [OF ne] i by simp
    next
      case False
      with i have "j = ?f + ?n - 1"
        by simp
      then show ?thesis
        using last [OF ne] by simp
    qed
  qed
  then have fat: "list_all (\<lambda>e. e < 2 ^ 32) (fat_table b')"
    using lf by (simp add: list_all_length)
  have le: "278528 \<le> length (disk_image b)" "278528 \<le> length (disk_image b')"
    using mi len by (simp_all add: main_inv_def)
  have "disk_image b' ! 0 = take 278528 (disk_image b') ! 0"
    by simp
  also have "\<dots> = disk_image b ! 0"
    unfolding eff(4) by simp
  finally have b0: "disk_image b' ! 0 = 0xEB"
    using mi by (simp add: main_inv_def)
  have sl: "slice xs 3072 3584 = slice (take 278528 xs) 3072 3584" for xs :: "byte list"
    by (simp add: slice_def drop_take [symmetric] min_def take_drop)
  have "slice (disk_image b') 3072 3584 = zeros 512"
    using mi unfolding sl [of "disk_image b'"] eff(4) sl [of "disk_image b", symmetric]
    by (simp add: main_inv_def)
  then show "main_inv b'"
    using eff(1) fat len b0 by (simp add: main_inv_def)
qed

lemma main_inv_add_file:
  assumes "add_file b f dn = Inr b'" "main_inv b"
  shows "main_inv b' \<and> next_free_cluster b' = next_free_cluster b + file_clusters f"
proof -
  obtain p content now where f: "f = (p, content, now)"
    by (cases f) auto
  show ?thesis
  proof (cases content)
    case None
    with assms f show ?thesis
      by (simp add: add_file_def file_clusters_def)
  next
    case (Some d)
    with assms f show ?thesis
      using main_inv_add_file_to_directory [of b _ d now b']
      by (simp add: add_file_def file_clusters_def)
  qed
qed

lemma main_inv_add_files:
  "add_files b fs = Inr b' \<Longrightarrow> main_inv b \<Longrightarrow>
   main_inv b' \<and> next_free_cluster b' = next_free_cluster b + sum_list (map file_clusters fs)"
proof (induction fs arbitrary: b)
  case Nil
  then show ?case by simp
next
  case (Cons f fs)
  from Cons.prems obtain b1 where b1: "add_file b f None = Inr b1" "add_files b1 fs = Inr b'"
    by (auto simp: ebind_eq_Inr)
  from main_inv_add_file [OF b1(1) Cons.prems(2)] Cons.IH [OF b1(2)] show ?case
    by simp
qed

lemma pack_entries_ok:
  "list_all (\<lambda>e. e < 2 ^ 32) es \<Longrightarrow> \<exists>p. pack_entries es = Inr p \<and> length p = 4 * length es"
proof (induction es)
  case Nil
  then show ?case by simp
next
  case (Cons e es)
  then obtain p where p: "pack_entries es = Inr p" "length p = 4 * length es"
    by auto
  have "int e < 4294967296"
    using Cons.prems by simp
  then have "struct_pack 4 (int e) = Inr (le_bytes 4 (int e))"
    by (simp add: struct_pack_def)
  with p show ?case
    by simp
qed

lemma pad_to_sector_aligned: "length d mod ss = 0 \<Longrightarrow> pad_to_sector ss d = d"
  by (simp add: pad_to_sector.simps [of ss d])

lemma write_fat_tables_ok:
  assumes mi: "main_inv b"
  shows "\<exists>b'. write_fat_tables b = Inr b' \<and> length (disk_image b') = length (disk_image b) \<and>
           take 16384 (disk_image b') = take 16384 (disk_image b)"
proof -
  have g: "sector_size b = 512" "fat_count b = 2" "fat_start_sector b = 32" "sectors_per_fat b = 256"
    "length (fat_table b) = 32768"
    using mi by (simp_all add: main_inv_def builder_inv_def)
  have le: "278528 \<le> length (disk_image b)"
    using mi by (simp add: main_inv_def)
  obtain p where p: "pack_entries (fat_table b) = Inr p" "length p = 131072"
    using pack_entries_ok [of "fat_table b"] mi g by (auto simp: main_inv_def)
  have pad: "pad_to_sector 512 p = p"
    using p(2) by (intro pad_to_sector_aligned) simp
  define i1 where "i1 = slice_set (disk_image b) 16384 147456 p"
  define i2 where "i2 = slice_set i1 147456 278528 p"
  have l1: "length i1 = length (disk_image b)"
    unfolding i1_def using le p(2) by (intro length_slice_set_same) simp_all
  have l2: "length i2 = length (disk_image b)"
    unfolding i2_def using le p(2) l1 by (subst length_slice_set_same) simp_all
  have t1: "take 16384 i1 = take 16384 (disk_image b)"
    unfolding i1_def using le by (intro take_slice_set) simp_all
  have t2: "take 16384 i2 = take 16384 (disk_image b)"
    unfolding i2_def using le l1 t1 by (subst take_slice_set) simp_all
  have u: "[0..<2::nat] = [0, 1]"
    by (simp add: upt_rec)
  have "write_fat_tables b = Inr (b\<lparr>disk_image := i2\<rparr>)"
    unfolding write_fat_tables_def Let_def using p pad
    by (simp add: g i1_def i2_def u)
  then show ?thesis
    using l2 t2 by simp
qed

text \<open>The builder of \<open>main\<close> when the first file is added.\<close>

lemma main_setup:
  "\<exists>b. (\<forall>kernel_file additional_files config_now readme_now.
          main kernel_file additional_files config_now readme_now =
            ebind (add_file b kernel_file (Some ''KERNEL.BIN'')) (\<lambda>b4.
            ebind (add_files b4 additional_files) (\<lambda>b5.
            ebind (add_file_to_directory b5 ''CONFIG.TXT'' config_data config_now) (\<lambda>b6.
            ebind (add_file_to_directory b6 ''README.TXT'' readme_data readme_now) (\<lambda>b7.
            ebind (write_fat_tables b7) (\<lambda>b8. Inr (save b8))))))) \<and>
       main_inv b \<and> dir_free_from b 1 \<and> next_free_cluster b = 3"
proof -
  let ?b0 = "Fat32DiskBuilder 32"
  have inv0: "builder_inv ?b0"
    by (rule builder_inv_init) simp
  have "total_sectors ?b0 < 2 ^ 32"
    by (simp add: Fat32DiskBuilder_def)
  from create_boot_sector_ok [OF inv0 this] obtain boot where
    b1: "create_boot_sector ?b0 = Inr (?b0\<lparr>disk_image := slice_set (disk_image ?b0) 0 512 boot\<rparr>)"
    and boot: "length boot = 512" "boot ! 0 = 0xEB"
    by blast
  define i1 where "i1 = slice_set (disk_image ?b0) 0 512 boot"
  have l0: "length (disk_image ?b0) = 33554432"
    by (simp add: Fat32DiskBuilder_def)
  have l1: "length i1 = 33554432"
    unfolding i1_def using boot l0 by (subst length_slice_set_same) simp_all
  from create_fsinfo_ok [of "?b0\<lparr>disk_image := i1\<rparr>"] obtain fsinfo where
    b2: "create_fsinfo (?b0\<lparr>disk_image := i1\<rparr>) = Inr (?b0\<lparr>disk_image := slice_set i1 512 1024 fsinfo\<rparr>)"
    and fsinfo: "length fsinfo = 512"
    by auto
  define i2 where "i2 = slice_set i1 512 1024 fsinfo"
  have l2: "length i2 = 33554432"
    unfolding i2_def using fsinfo l1 by (subst length_slice_set_same) simp_all
  define fat where "fat = (fat_table ?b0)[0 := 0x0FFFFF00 OR 0xF8, 1 := 0x0FFFFFFF, 2 := 0x0FFFFFFF]"
  have b3: "initialize_fat (?b0\<lparr>disk_image := i2\<rparr>) = Inr (?b0\<lparr>disk_image := i2, fat_table := fat\<rparr>)"
    by (subst initialize_fat_ok) (simp_all add: fat_def Fat32DiskBuilder_def)
  define b3 where "b3 = ?b0\<lparr>disk_image := i2, fat_table := fat\<rparr>"
  have lfat: "length fat = 32768"
    by (simp add: fat_def Fat32DiskBuilder_def)
  have inv3: "builder_inv b3"
    using inv0 l2 lfat
    by (simp add: b3_def builder_inv_def cluster_offset_def cluster_to_sector_def Fat32DiskBuilder_def)
  from create_root_directory_eq [OF inv3] obtain root_data where
    b4: "create_root_directory b3 = b3\<lparr>disk_image := slice_set (disk_image b3) 278528 282624 root_data\<rparr>"
    and root: "length root_data = 4096" "drop 32 root_data = zeros 4064"
    by blast
  define i4 where "i4 = slice_set i2 278528 282624 root_data"
  define b where "b = b3\<lparr>disk_image := i4\<rparr>"
  have b4': "create_root_directory b3 = b"
    using b4 by (simp add: b_def i4_def b3_def)
  have l4: "length i4 = 33554432"
    unfolding i4_def using root l2 by (subst length_slice_set_same) simp_all
  have nf: "next_free_cluster b = 3"
    by (simp add: b_def b3_def Fat32DiskBuilder_def)
  have inv: "builder_inv b"
    using inv3 l4 nf
    by (simp add: b_def builder_inv_def cluster_offset_def cluster_to_sector_def)
  have "fat ! j < 2 ^ 32" if "j < 32768" for j
    using that by (simp add: fat_def Fat32DiskBuilder_def nth_list_update)
  then have fat_ok: "list_all (\<lambda>e. e < 2 ^ 32) (fat_table b)"
    using lfat by (simp add: b_def b3_def list_all_length)
  have h4: "i4 ! 0 = 0xEB"
  proof -
    have "i4 ! 0 = i2 ! 0"
      unfolding i4_def using l2 by (subst nth_slice_set_before) simp_all
    also have "\<dots> = i1 ! 0"
      unfolding i2_def using l1 by (subst nth_slice_set_before) simp_all
    also have "\<dots> = boot ! 0"
      unfolding i1_def using nth_slice_set_inside [of 0 "disk_image ?b0" 0 boot 512] boot l0 by simp
    finally show ?thesis
      using boot by simp
  qed
  have s4: "slice i4 3072 3584 = zeros 512"
  proof -
    have "slice i4 3072 3584 = slice i2 3072 3584"
      unfolding i4_def using l2 by (intro slice_slice_set_before) simp_all
    also have "\<dots> = slice i1 3072 3584"
      unfolding i2_def using l1 fsinfo by (intro slice_slice_set_after) simp_all
    also have "\<dots> = slice (disk_image ?b0) 3072 3584"
      unfolding i1_def using l0 boot by (intro slice_slice_set_after) simp_all
    also have "\<dots> = zeros 512"
      by (simp add: Fat32DiskBuilder_def slice_def)
    finally show ?thesis .
  qed
  have co: "cluster_offset b 3 = 282624" "cluster_offset b 2 = 278528"
    using cluster_offset_inv [OF inv] by simp_all
  have mi: "main_inv b"
    using inv fat_ok h4 s4 l4 by (simp add: main_inv_def nf co) (simp add: b_def)
  have "read_cluster b 2 = slice (slice_set i2 278528 282624 root_data) 278528 (278528 + length root_data)"
    using inv by (simp add: read_cluster_def co builder_inv_def root) (simp add: b_def i4_def)
  also have "\<dots> = root_data"
    using l2 by (intro slice_slice_set_inside) simp
  finally have df: "dir_free_from b 1"
    using root by (simp add: dir_free_from_def)
  have "main k a cn rn =
            ebind (add_file b k (Some ''KERNEL.BIN'')) (\<lambda>b4.
            ebind (add_files b4 a) (\<lambda>b5.
            ebind (add_file_to_directory b5 ''CONFIG.TXT'' config_data cn) (\<lambda>b6.
            ebind (add_file_to_directory b6 ''README.TXT'' readme_data rn) (\<lambda>b7.
            ebind (write_fat_tables b7) (\<lambda>b8. Inr (save b8))))))" for k a cn rn
    by (simp only: main_def b1 ebind_Inr i1_def [symmetric] b2 i2_def [symmetric] b3
        b3_def [symmetric] b4')
  then show ?thesis
    using mi df nf by blast
qed

text \<open>Every image \<open>main\<close> writes: its length, its first byte and its sector 6.\<close>

lemma main_Inr:
  assumes "main kernel_file additional_files config_now readme_now = Inr img"
  shows "length img = max 33554432 (278528 + (1 + total_clusters kernel_file additional_files) * 4096)"
    and "img ! 0 = 0xEB" and "slice img 3072 3584 = zeros 512"
proof -
  from main_setup obtain b where
    m: "main kernel_file additional_files config_now readme_now =
            ebind (add_file b kernel_file (Some ''KERNEL.BIN'')) (\<lambda>b4.
            ebind (add_files b4 additional_files) (\<lambda>b5.
            ebind (add_file_to_directory b5 ''CONFIG.TXT'' config_data config_now) (\<lambda>b6.
            ebind (add_file_to_directory b6 ''README.TXT'' readme_data readme_now) (\<lambda>b7.
            ebind (write_fat_tables b7) (\<lambda>b8. Inr (save b8))))))"
    and mi: "main_inv b" and nf: "next_free_cluster b = 3"
    by blast
  from assms obtain b4 b5 b6 b7 b8 where
    s: "add_file b kernel_file (Some ''KERNEL.BIN'') = Inr b4" "add_files b4 additional_files = Inr b5"
      "add_file_to_directory b5 ''CONFIG.TXT'' config_data config_now = Inr b6"
      "add_file_to_directory b6 ''README.TXT'' readme_data readme_now = Inr b7"
      "write_fat_tables b7 = Inr b8" "img = save b8"
    unfolding m by (auto simp: ebind_eq_Inr)
  have i4: "main_inv b4" "next_free_cluster b4 = 3 + file_clusters kernel_file"
    using main_inv_add_file [OF s(1) mi] nf by simp_all
  have i5: "main_inv b5"
    "next_free_cluster b5 = 3 + file_clusters kernel_file + sum_list (map file_clusters additional_files)"
    using main_inv_add_files [OF s(2) i4(1)] i4(2) by simp_all
  have i6: "main_inv b6" "next_free_cluster b6 = next_free_cluster b5 + payload_clusters config_data"
    by (rule main_inv_add_file_to_directory [OF s(3) i5(1)])+
  have i7: "main_inv b7" "next_free_cluster b7 = next_free_cluster b6 + payload_clusters readme_data"
    by (rule main_inv_add_file_to_directory [OF s(4) i6(1)])+
  have nf7: "next_free_cluster b7 = 3 + total_clusters kernel_file additional_files"
    unfolding i7(2) i6(2) i5(2) by (simp add: total_clusters_def)
  from write_fat_tables_ok [OF i7(1)] s(5) have
    w: "length (disk_image b8) = length (disk_image b7)"
      "take 16384 (disk_image b8) = take 16384 (disk_image b7)"
    by simp_all
  have inv7: "builder_inv b7"
    using i7(1) by (simp add: main_inv_def)
  have co: "cluster_offset b7 (next_free_cluster b7) =
            278528 + (1 + total_clusters kernel_file additional_files) * 4096"
    unfolding nf7 using cluster_offset_inv [OF inv7, of "3 + total_clusters kernel_file additional_files"]
    by simp
  show "length img = max 33554432 (278528 + (1 + total_clusters kernel_file additional_files) * 4096)"
    using i7(1) w(1) s(6) unfolding main_inv_def co by (simp add: save_def)
  have le: "16384 \<le> length (disk_image b7)"
    using i7(1) by (simp add: main_inv_def)
  have "img ! 0 = take 16384 (disk_image b8) ! 0"
    using s(6) by (simp add: save_def)
  also have "\<dots> = disk_image b7 ! 0"
    unfolding w(2) by simp
  finally show "img ! 0 = 0xEB"
    using i7(1) by (simp add: main_inv_def)
  have sl: "slice xs 3072 3584 = slice (take 16384 xs) 3072 3584" for xs :: "byte list"
    by (simp add: slice_def drop_take [symmetric] min_def take_drop)
  show "slice img 3072 3584 = zeros 512"
    using i7(1) s(6) unfolding save_def main_inv_def
    by (simp add: sl [of "disk_image b8"] w(2) sl [of "disk_image b7", symmetric])
qed

lemma dir_free_from_mono:
  assumes "dir_free_from b k" "k \<le> k'" "k' \<le> 128"
  shows "dir_free_from b k'"
proof -
  have "drop (32 * k') (read_cluster b 2) = drop (32 * k' - 32 * k) (drop (32 * k) (read_cluster b 2))"
    using assms(2) by simp
  also have "\<dots> = zeros (4096 - 32 * k')"
    using assms unfolding dir_free_from_def by simp
  finally show ?thesis
    using assms(3) by (simp add: dir_free_from_def)
qed

lemma fat_filename_kernel: "fat_filename_of ''KERNEL.BIN'' = Inr (bytes_of ''KERNEL  BIN'')"
  by code_simp

lemma fat_filename_config: "fat_filename_of ''CONFIG.TXT'' = Inr (bytes_of ''CONFIG  TXT'')"
  by code_simp

lemma fat_filename_readme: "fat_filename_of ''README.TXT'' = Inr (bytes_of ''README  TXT'')"
  by code_simp

lemma payload_clusters_texts: "payload_clusters config_data = 1" "payload_clusters readme_data = 1"
  by code_simp+

text \<open>One step of \<open>main\<close> that adds a payload: it succeeds while the FAT and the directory have room.\<close>

lemma main_step_ok:
  assumes mi: "main_inv b" and df: "dir_free_from b k" and k: "k < 128"
    and fn: "fat_filename_of name = Inr fn" and now: "now_ok now"
    and cap: "next_free_cluster b + payload_clusters file_data \<le> 32768"
  shows "\<exists>b'. add_file_to_directory b name file_data now = Inr b' \<and> main_inv b' \<and>
           dir_free_from b' (Suc k) \<and>
           next_free_cluster b' = next_free_cluster b + payload_clusters file_data"
proof -
  have inv: "builder_inv b"
    using mi by (simp add: main_inv_def)
  have "next_free_cluster b + clusters_for b file_data \<le> 32768"
    using cap by (simp add: clusters_for_payload [OF inv])
  from add_file_to_directory_ok [OF inv dir_free_from_slot [OF df k inv] fn now this]
  obtain b' where ok: "add_file_to_directory b name file_data now = Inr b'"
    by blast
  show ?thesis
    using ok main_inv_add_file_to_directory [OF ok mi] add_file_to_directory_dir_free [OF ok inv df k]
    by blast
qed

lemma main_ok:
  assumes "now_ok kn" "now_ok cn" "now_ok rn" "file_clusters (p, content, kn) \<le> 32000"
  shows "\<exists>img. main (p, content, kn) [] cn rn = Inr img"
proof -
  from main_setup obtain b where
    m: "main (p, content, kn) [] cn rn =
            ebind (add_file b (p, content, kn) (Some ''KERNEL.BIN'')) (\<lambda>b4.
            ebind (add_files b4 []) (\<lambda>b5.
            ebind (add_file_to_directory b5 ''CONFIG.TXT'' config_data cn) (\<lambda>b6.
            ebind (add_file_to_directory b6 ''README.TXT'' readme_data rn) (\<lambda>b7.
            ebind (write_fat_tables b7) (\<lambda>b8. Inr (save b8))))))"
    and mi: "main_inv b" and df: "dir_free_from b 1" and nf: "next_free_cluster b = 3"
    by blast
  have "\<exists>b4. add_file b (p, content, kn) (Some ''KERNEL.BIN'') = Inr b4 \<and> main_inv b4 \<and>
          dir_free_from b4 2 \<and> next_free_cluster b4 \<le> 32003"
  proof (cases content)
    case None
    then show ?thesis
      using mi nf dir_free_from_mono [OF df, of 2] by (simp add: add_file_def)
  next
    case (Some d)
    have "next_free_cluster b + payload_clusters d \<le> 32768"
      using assms(4) nf Some by (simp add: file_clusters_def)
    from main_step_ok [OF mi df _ fat_filename_kernel assms(1) this] obtain b4 where
      "add_file_to_directory b ''KERNEL.BIN'' d kn = Inr b4" "main_inv b4" "dir_free_from b4 (Suc 1)"
      "next_free_cluster b4 = next_free_cluster b + payload_clusters d"
      by auto
    then show ?thesis
      using Some assms(4) nf by (auto simp: add_file_def file_clusters_def numeral_2_eq_2)
  qed
  then obtain b4 where b4: "add_file b (p, content, kn) (Some ''KERNEL.BIN'') = Inr b4"
    "main_inv b4" "dir_free_from b4 2" "next_free_cluster b4 \<le> 32003"
    by blast
  have "next_free_cluster b4 + payload_clusters config_data \<le> 32768"
    using b4(4) by (simp add: payload_clusters_texts)
  from main_step_ok [OF b4(2,3) _ fat_filename_config assms(2) this] obtain b6 where
    b6: "add_file_to_directory b4 ''CONFIG.TXT'' config_data cn = Inr b6" "main_inv b6"
      "dir_free_from b6 (Suc 2)" "next_free_cluster b6 = next_free_cluster b4 + payload_clusters config_data"
    by auto
  have "next_free_cluster b6 + payload_clusters readme_data \<le> 32768"
    using b4(4) b6(4) by (simp add: payload_clusters_texts)
  from main_step_ok [OF b6(2,3) _ fat_filename_readme assms(3) this] obtain b7 where
    b7: "add_file_to_directory b6 ''README.TXT'' readme_data rn = Inr b7" "main_inv b7"
    by auto
  from write_fat_tables_ok [OF b7(2)] obtain b8 where b8: "write_fat_tables b7 = Inr b8"
    by blast
  show ?thesis
    unfolding m using b4(1) b6(1) b7(1) b8 by simp
qed

text \<open>
  C5 (amended). While the clusters of all added files fit into the data area of the
  32 MiB image (at most 8123 clusters behind the root directory's), the output file is
  exactly \<open>totalSectors * bytesPerSector\<close> bytes long, whatever the number and sizes of
  the files.
\<close>

theorem image_length_when_files_fit:
  assumes "main kernel_file additional_files config_now readme_now = Inr img"
    and "total_clusters kernel_file additional_files \<le> 8123"
  shows "length img = total_sectors (Fat32DiskBuilder 32) * sector_size (Fat32DiskBuilder 32)"
  using main_Inr(1) [OF assms(1)] assms(2) by (simp add: Fat32DiskBuilder_def)

theorem image_length_when_files_fit_witness:
  "\<exists>img. main (''build/kernel.bin'', None, sample_now) [] sample_now sample_now = Inr img \<and>
     total_clusters (''build/kernel.bin'', None, sample_now) [] \<le> 8123 \<and>
     length img = 65536 * 512"
proof -
  have fc: "file_clusters (''build/kernel.bin'', None, sample_now) = 0"
    by (simp add: file_clusters_def)
  obtain img where ok: "main (''build/kernel.bin'', None, sample_now) [] sample_now sample_now = Inr img"
    using main_ok [OF now_ok_sample now_ok_sample now_ok_sample, of "''build/kernel.bin''" None] fc
    by auto
  have t: "total_clusters (''build/kernel.bin'', None, sample_now) [] \<le> 8123"
    by (simp add: total_clusters_def fc payload_clusters_texts)
  from image_length_when_files_fit [OF ok t] show ?thesis
    using ok t by (simp add: Fat32DiskBuilder_def)
qed

text \<open>
  The claim as stated fails: a 32 MiB kernel needs 8192 clusters, the copy loop assigns
  the clusters behind the end of the bytearray by slices, which appends them, and the
  image that is saved is longer than \<open>totalSectors * bytesPerSector\<close>.
\<close>

theorem image_length_counterexample:
  "map_sum id length
     (main (''build/kernel.bin'', Some (zeros 33554432), sample_now) [] sample_now sample_now)
   = Inr 33845248 \<and>
   33845248 \<noteq> total_sectors (Fat32DiskBuilder 32) * sector_size (Fat32DiskBuilder 32)"
proof -
  let ?k = "(''build/kernel.bin'', Some (zeros 33554432), sample_now)"
  have fc: "file_clusters ?k = 8192"
    by (simp add: file_clusters_def payload_clusters_def)
  obtain img where ok: "main ?k [] sample_now sample_now = Inr img"
    using main_ok [OF now_ok_sample now_ok_sample now_ok_sample, of "''build/kernel.bin''"
        "Some (zeros 33554432)"] fc
    by auto
  have "total_clusters ?k [] = 8194"
    by (simp add: total_clusters_def fc payload_clusters_texts)
  then have "length img = 33845248"
    using main_Inr(1) [OF ok] by simp
  then show ?thesis
    using ok by (simp add: Fat32DiskBuilder_def)
qed

lemma and_ffff_bounds: "0 \<le> (x::int) AND 0xFFFF" "(x::int) AND 0xFFFF < 2 ^ 16"
proof -
  show "0 \<le> x AND 0xFFFF"
    by simp
  have "x AND 0xFFFF \<le> 0xFFFF"
    by (rule AND_upper2) simp
  then show "x AND 0xFFFF < 2 ^ 16"
    by simp
qed

lemma length_encode_ascii: "encode_ascii s = Inr bs \<Longrightarrow> length bs = length s"
  by (auto simp: encode_ascii_def split: if_splits)

lemma create_directory_entry_length:
  assumes "create_directory_entry name attr cluster sz = Inr e"
  shows "length e = 32"
proof -
  from assms obtain enc where enc: "encode_ascii (ljust 11 name) = Inr enc"
    by (auto simp: create_directory_entry_def ebind_eq_Inr)
  have "11 \<le> length enc"
    using length_encode_ascii [OF enc] by (simp add: ljust_def)
  then have l0: "length (slice_set (zeros 32) 0 11 (take 11 enc)) = 32"
    by (simp add: length_slice_set)
  define e0 where "e0 = slice_set (slice_set (slice_set (((slice_set (zeros 32) 0 11 (take 11 enc))
      [11 := attr])[12 := 0, 13 := 0]) 14 16 [0x00, 0x00]) 16 18 [0x21, 0x00]) 18 20 [0x21, 0x00]"
  have le0: "length e0 = 32"
    using l0 by (simp add: e0_def length_slice_set)
  from assms enc obtain e1 e2 where
    p: "pack_into 2 e0 20 (drop_bit 16 (int cluster) AND 0xFFFF) = Inr e1"
      "pack_into 2 (slice_set (slice_set e1 22 24 [0x00, 0x00]) 24 26 [0x21, 0x00]) 26
         (int cluster AND 0xFFFF) = Inr e2"
      "pack_into 4 e2 28 (int sz) = Inr e"
    by (auto simp: create_directory_entry_def Let_def ebind_eq_Inr e0_def)
  have "length e1 = 32"
    using pack_into_length [OF p(1)] le0 by simp
  then have "length e2 = 32"
    using pack_into_length [OF p(2)] by (simp add: length_slice_set)
  then show ?thesis
    using pack_into_length [OF p(3)] by simp
qed

lemma create_directory_entry_ok:
  assumes "list_all (\<lambda>c. (of_char c :: nat) < 128) name" "sz < 2 ^ 32"
  shows "\<exists>e. create_directory_entry name attr cluster sz = Inr e"
proof -
  have enc: "encode_ascii (ljust 11 name) = Inr (bytes_of (ljust 11 name))"
    using assms(1) by (auto simp: encode_ascii_def ljust_def list_all_iff)
  define enc where "enc = bytes_of (ljust 11 name)"
  have "11 \<le> length enc"
    by (simp add: enc_def ljust_def)
  then have l0: "length (slice_set (zeros 32) 0 11 (take 11 enc)) = 32"
    by (simp add: length_slice_set)
  define e0 where "e0 = slice_set (slice_set (slice_set (((slice_set (zeros 32) 0 11 (take 11 enc))
      [11 := attr])[12 := 0, 13 := 0]) 14 16 [0x00, 0x00]) 16 18 [0x21, 0x00]) 18 20 [0x21, 0x00]"
  have le0: "length e0 = 32"
    using l0 by (simp add: e0_def length_slice_set)
  define e1 where "e1 = slice_set e0 20 22 (le_bytes 2 (drop_bit 16 (int cluster) AND 0xFFFF))"
  have p1: "pack_into 2 e0 20 (drop_bit 16 (int cluster) AND 0xFFFF) = Inr e1"
    unfolding e1_def using and_ffff_bounds [of "drop_bit 16 (int cluster)"] le0
    by (subst pack_into_ok) simp_all
  have le1: "length e1 = 32"
    using pack_into_length [OF p1] le0 by simp
  define e1' where "e1' = slice_set (slice_set e1 22 24 [0x00, 0x00]) 24 26 [0x21, 0x00]"
  have le1': "length e1' = 32"
    using le1 by (simp add: e1'_def length_slice_set)
  define e2 where "e2 = slice_set e1' 26 28 (le_bytes 2 (int cluster AND 0xFFFF))"
  have p2: "pack_into 2 e1' 26 (int cluster AND 0xFFFF) = Inr e2"
    unfolding e2_def using and_ffff_bounds [of "int cluster"] le1'
    by (subst pack_into_ok) simp_all
  have le2: "length e2 = 32"
    using pack_into_length [OF p2] le1' by simp
  have p3: "pack_into 4 e2 28 (int sz) = Inr (slice_set e2 28 32 (le_bytes 4 (int sz)))"
    using assms(2) le2 by (subst pack_into_ok) simp_all
  show ?thesis
    by (simp only: create_directory_entry_def enc ebind_Inr Let_def enc_def [symmetric]
        list_update.simps e0_def [symmetric] p1 e1'_def [symmetric] p2 p3) simp
qed

lemma fixed_create_boot_sector_ok:
  "\<exists>boot. fixed_create_boot_sector = Inr boot \<and> length boot = 512"
proof -
  define s2 where "s2 = slice_set (slice_set (zeros 512) 0 3 [0xEB, 0x58, 0x90]) 3 11 (bytes_of ''NUMOS1.0'')"
  define f1 where "f1 = [(2, 11, int BYTES_PER_SECTOR), (1, 13, int SECTORS_PER_CLUSTER),
      (2, 14, int RESERVED_SECTORS), (1, 16, int NUM_FATS), (2, 17, 0), (2, 19, 0),
      (1, 21, 0xF8), (2, 22, 0), (2, 24, 63), (2, 26, 16), (4, 28, 0),
      (4, 32, int ((DISK_SIZE_MB * 1024 * 1024) div BYTES_PER_SECTOR)), (4, 36, int fat_size),
      (2, 40, 0), (2, 42, 0), (4, 44, 2), (2, 48, 1), (2::nat, 50::nat, 6::int)]"
  define f2 where "f2 = [(1, 64, 0x80), (1, 65, 0), (1, 66, 0x29), (4::nat, 67::nat, 0x12345678::int)]"
  have l2: "length s2 = 512"
    by (simp add: s2_def length_slice_set)
  have "list_all (\<lambda>(w, off, v). 0 \<le> v \<and> v < 2 ^ (8 * w) \<and> off + w \<le> length s2) f1"
    by (simp add: f1_def l2 BYTES_PER_SECTOR_def SECTORS_PER_CLUSTER_def RESERVED_SECTORS_def
        NUM_FATS_def DISK_SIZE_MB_def fat_size_def)
  from pack_fields_ok [OF this] obtain s3 where s3: "pack_fields s2 f1 = Inr s3"
    by auto
  have l3: "length s3 = 512"
    using pack_fields_length [OF s3] l2 by simp
  define s4 where "s4 = slice_set s3 52 64 (zeros 12)"
  have l4: "length s4 = 512"
    by (simp add: s4_def length_slice_set l3)
  have "list_all (\<lambda>(w, off, v). 0 \<le> v \<and> v < 2 ^ (8 * w) \<and> off + w \<le> length s4) f2"
    by (simp add: f2_def l4)
  from pack_fields_ok [OF this] obtain s5 where s5: "pack_fields s4 f2 = Inr s5"
    by auto
  have l5: "length s5 = 512"
    using pack_fields_length [OF s5] l4 by simp
  define boot where "boot = slice_set (slice_set (slice_set s5 71 82 (bytes_of ''NUMOS DISK ''))
      82 90 (bytes_of ''FAT32   '')) 510 512 [0x55, 0xAA]"
  have lb: "length boot = 512"
    by (simp add: boot_def length_slice_set l5)
  have "fixed_create_boot_sector = Inr boot"
    by (simp only: fixed_create_boot_sector_def Let_def s2_def [symmetric] f1_def [symmetric]
        f2_def [symmetric] s3 ebind_Inr s4_def [symmetric] s5 boot_def [symmetric])
  then show ?thesis
    using lb by blast
qed

lemma fixed_create_fsinfo_ok: "\<exists>fsinfo. fixed_create_fsinfo = Inr fsinfo \<and> length fsinfo = 512"
proof -
  define f where "f = [(4, 0, 0x41615252), (4, 484, 0x61417272), (4, 488, 0xFFFFFFFF), (4, 492, 2),
      (4::nat, 508::nat, 0xAA550000::int)]"
  have "list_all (\<lambda>(w, off, v). 0 \<le> v \<and> v < 2 ^ (8 * w) \<and> off + w \<le> length (zeros 512)) f"
    by (simp add: f_def)
  from pack_fields_ok [OF this] obtain fsinfo where p: "pack_fields (zeros 512) f = Inr fsinfo"
    by auto
  have "length fsinfo = 512"
    using pack_fields_length [OF p] by simp
  moreover have "fixed_create_fsinfo = Inr fsinfo"
    by (simp only: fixed_create_fsinfo_def f_def [symmetric] p)
  ultimately show ?thesis
    by blast
qed

lemma ascii_names:
  "list_all (\<lambda>c. (of_char c :: nat) < 128) ''.          ''"
  "list_all (\<lambda>c. (of_char c :: nat) < 128) ''..         ''"
  "list_all (\<lambda>c. (of_char c :: nat) < 128) ''INIT       ''"
  "list_all (\<lambda>c. (of_char c :: nat) < 128) ''BIN        ''"
  "list_all (\<lambda>c. (of_char c :: nat) < 128) ''RUN        ''"
  "list_all (\<lambda>c. (of_char c :: nat) < 128) ''SHELL      ''"
  by simp_all

lemma fixed_create_root_directory_ok:
  "\<exists>root. fixed_create_root_directory = Inr root \<and> length root = 4096"
proof -
  obtain e0 e1 e2 e3 e4 where
    e: "create_directory_entry ''.          '' DIR_ATTR 2 0 = Inr e0"
      "create_directory_entry ''..         '' DIR_ATTR 0 0 = Inr e1"
      "create_directory_entry ''INIT       '' DIR_ATTR 3 0 = Inr e2"
      "create_directory_entry ''BIN        '' DIR_ATTR 4 0 = Inr e3"
      "create_directory_entry ''RUN        '' DIR_ATTR 5 0 = Inr e4"
    using create_directory_entry_ok [OF ascii_names(1), of 0 DIR_ATTR 2]
      create_directory_entry_ok [OF ascii_names(2), of 0 DIR_ATTR 0]
      create_directory_entry_ok [OF ascii_names(3), of 0 DIR_ATTR 3]
      create_directory_entry_ok [OF ascii_names(4), of 0 DIR_ATTR 4]
      create_directory_entry_ok [OF ascii_names(5), of 0 DIR_ATTR 5]
    by auto
  have l: "length e0 = 32" "length e1 = 32" "length e2 = 32" "length e3 = 32" "length e4 = 32"
    using e by (auto dest: create_directory_entry_length)
  show ?thesis
    using e l
    by (simp add: fixed_create_root_directory_def Let_def BYTES_PER_CLUSTER_def
        SECTORS_PER_CLUSTER_def BYTES_PER_SECTOR_def length_slice_set)
qed

lemma create_init_directory_ok:
  assumes "elf_size < 2 ^ 32"
  shows "\<exists>d. create_init_directory elf_size = Inr d \<and> length d = 4096"
proof -
  obtain e0 e1 e2 where
    e: "create_directory_entry ''.          '' DIR_ATTR 3 0 = Inr e0"
      "create_directory_entry ''..         '' DIR_ATTR 2 0 = Inr e1"
      "create_directory_entry ''SHELL      '' FILE_ATTR 6 elf_size = Inr e2"
    using create_directory_entry_ok [OF ascii_names(1), of 0 DIR_ATTR 3]
      create_directory_entry_ok [OF ascii_names(2), of 0 DIR_ATTR 2]
      create_directory_entry_ok [OF ascii_names(6) assms, of FILE_ATTR 6]
    by auto
  have l: "length e0 = 32" "length e1 = 32" "length e2 = 32"
    using e by (auto dest: create_directory_entry_length)
  show ?thesis
    using e l
    by (simp add: create_init_directory_def Let_def BYTES_PER_CLUSTER_def
        SECTORS_PER_CLUSTER_def BYTES_PER_SECTOR_def length_slice_set)
qed

lemma create_empty_directory_ok:
  "\<exists>d. create_empty_directory c = Inr d \<and> length d = 4096"
proof -
  obtain e0 e1 where
    e: "create_directory_entry ''.          '' DIR_ATTR c 0 = Inr e0"
      "create_directory_entry ''..         '' DIR_ATTR 2 0 = Inr e1"
    using create_directory_entry_ok [OF ascii_names(1), of 0 DIR_ATTR c]
      create_directory_entry_ok [OF ascii_names(2), of 0 DIR_ATTR 2]
    by auto
  have l: "length e0 = 32" "length e1 = 32"
    using e by (auto dest: create_directory_entry_length)
  show ?thesis
    using e l
    by (simp add: create_empty_directory_def Let_def BYTES_PER_CLUSTER_def
        SECTORS_PER_CLUSTER_def BYTES_PER_SECTOR_def length_slice_set)
qed

text \<open>The head of every file create\_disk\_fixed.py writes.\<close>

lemma fixed_main_Inr:
  assumes "fixed_main elf_file elf_content = Inr img"
  shows "\<exists>boot fsinfo rest. fixed_create_boot_sector = Inr boot \<and> length boot = 512 \<and>
           length fsinfo = 512 \<and> img = boot @ fsinfo @ zeros 2048 @ boot @ rest"
proof -
  obtain boot where boot: "fixed_create_boot_sector = Inr boot" "length boot = 512"
    using fixed_create_boot_sector_ok by blast
  obtain fsinfo where fsinfo: "fixed_create_fsinfo = Inr fsinfo" "length fsinfo = 512"
    using fixed_create_fsinfo_ok by blast
  have u: "[2..<32::nat] = [2, 3, 4, 5, 6] @ [7..<32]"
    by (simp add: upt_rec [of 2] upt_rec [of 3] upt_rec [of 4] upt_rec [of 5] upt_rec [of 6])
  have res: "concat (map (\<lambda>i. if i = 6 then boot else zeros 512) [2..<32::nat]) =
        zeros 2048 @ boot @ concat (map (\<lambda>i. if i = 6 then boot else zeros 512) [7..<32])"
    unfolding u by (simp add: zeros_def replicate_add [symmetric])
  from assms obtain tail where "img = boot @ fsinfo @
      concat (map (\<lambda>i. if i = 6 then boot else zeros 512) [2..<32]) @ tail"
    unfolding fixed_main_def Let_def boot(1) fsinfo(1) ebind_Inr RESERVED_SECTORS_def BYTES_PER_SECTOR_def
    by (auto simp: ebind_eq_Inr split: if_splits simp del: upt_rec_numeral)
  then have "img = boot @ fsinfo @ zeros 2048 @ boot
                   @ (concat (map (\<lambda>i. if i = 6 then boot else zeros 512) [7..<32]) @ tail)"
    unfolding res by simp
  then show ?thesis
    using boot fsinfo by blast
qed

lemma cell_write:
  assumes "pack_into 4 fat (4 * a) v = Inr fat'"
  shows "length fat' = length fat" and "4 * a + 4 \<le> length fat"
    and "slice fat' (4 * a) (4 * a + 4) = le_bytes 4 v" and "0 \<le> v" and "v < 2 ^ 32"
    and "c \<noteq> a \<Longrightarrow> slice fat' (4 * c) (4 * c + 4) = slice fat (4 * c) (4 * c + 4)"
proof -
  from assms have e: "fat' = slice_set fat (4 * a) (4 * a + 4) (le_bytes 4 v)"
    and le: "4 * a + 4 \<le> length fat"
    by (auto dest: pack_into_Inr)
  show "length fat' = length fat"
    by (rule pack_into_length [OF assms])
  show "4 * a + 4 \<le> length fat" by fact
  show "slice fat' (4 * a) (4 * a + 4) = le_bytes 4 v"
    unfolding e using slice_slice_set_inside [of "4 * a" fat "4 * a + 4" "le_bytes 4 v"] le by simp
  show "0 \<le> v" "v < 2 ^ 32"
    using assms by (auto simp: pack_into_def struct_pack_def ebind_eq_Inr split: if_splits)
  show "slice fat' (4 * c) (4 * c + 4) = slice fat (4 * c) (4 * c + 4)" if "c \<noteq> a"
  proof (cases "c < a")
    case True
    then show ?thesis
      unfolding e using le by (intro slice_slice_set_before) simp_all
  next
    case False
    with that have "a < c" by simp
    then show ?thesis
      unfolding e using le by (intro slice_slice_set_after) simp_all
  qed
qed

text \<open>The chain loop of \<open>create_fat\<close>: one FAT cell per round, no other cell touched.\<close>

lemma fat_chain_loop_Inr:
  assumes "fat_chain_loop n js fat = Inr fat'" "distinct js"
  shows "length fat' = length fat \<and>
         (\<forall>i \<in> set js. 4 * (6 + i) + 4 \<le> length fat \<and>
            fat_entry fat' (6 + i) = Some (if i = n - 1 then 0x0FFFFFFF else 6 + i + 1)) \<and>
         (\<forall>c. c \<notin> (+) 6 ` set js \<longrightarrow> slice fat' (4 * c) (4 * c + 4) = slice fat (4 * c) (4 * c + 4))"
  using assms
proof (induction js arbitrary: fat)
  case Nil
  then show ?case by simp
next
  case (Cons i js)
  let ?v = "if i = n - 1 then 0x0FFFFFFF else int (6 + i + 1)"
  have "ebind (pack_into 4 fat ((6 + i) * 4) ?v) (fat_chain_loop n js) = Inr fat'"
    using Cons.prems(1) by (cases "i = n - 1") (simp_all add: Let_def)
  then obtain f1 where
    w0: "pack_into 4 fat ((6 + i) * 4) ?v = Inr f1" and r: "fat_chain_loop n js f1 = Inr fat'"
    unfolding ebind_eq_Inr by blast
  have w: "pack_into 4 fat (4 * (6 + i)) ?v = Inr f1"
    using w0 by (simp only: mult.commute)
  note cw = cell_write [OF w]
  from Cons.IH [OF r] Cons.prems(2) have
    ih: "length fat' = length f1"
      "\<And>k. k \<in> set js \<Longrightarrow> 4 * (6 + k) + 4 \<le> length f1 \<and>
            fat_entry fat' (6 + k) = Some (if k = n - 1 then 0x0FFFFFFF else 6 + k + 1)"
      "\<And>c. c \<notin> (+) 6 ` set js \<Longrightarrow> slice fat' (4 * c) (4 * c + 4) = slice f1 (4 * c) (4 * c + 4)"
    by auto
  have "6 + i \<notin> (+) 6 ` set js"
    using Cons.prems(2) by auto
  then have "slice fat' (4 * (6 + i)) (4 * (6 + i) + 4) = slice f1 (4 * (6 + i)) (4 * (6 + i) + 4)"
    by (rule ih(3))
  then have "slice fat' (4 * (6 + i)) (4 * (6 + i) + 4) = le_bytes 4 ?v"
    by (simp only: cw(3))
  moreover have "int (le_value (le_bytes 4 ?v)) = ?v"
    using cw(4,5) by (intro le_value_le_bytes) simp_all
  then have "le_value (le_bytes 4 ?v) = (if i = n - 1 then 0x0FFFFFFF else 6 + i + 1)"
    by (auto split: if_splits)
  ultimately have here: "fat_entry fat' (6 + i) = Some (if i = n - 1 then 0x0FFFFFFF else 6 + i + 1)"
    using cw(1,2) ih(1) by (simp add: fat_entry_def)
  have other: "slice fat' (4 * c) (4 * c + 4) = slice fat (4 * c) (4 * c + 4)"
    if "c \<notin> (+) 6 ` set (i # js)" for c
  proof -
    have "c \<noteq> 6 + i" "c \<notin> (+) 6 ` set js"
      using that by auto
    then show ?thesis
      using ih(3) [of c] cw(6) [of c] by simp
  qed
  show ?case
    using ih(1,2) cw(1,2) here other by auto
qed

lemma fat_chain_loop_ok:
  assumes "\<forall>i \<in> set js. 4 * (6 + i) + 4 \<le> length fat" "length fat < 2 ^ 32"
  shows "\<exists>fat'. fat_chain_loop n js fat = Inr fat'"
  using assms
proof (induction js arbitrary: fat)
  case Nil
  then show ?case by simp
next
  case (Cons i js)
  let ?v = "if i = n - 1 then 0x0FFFFFFF else int (6 + i + 1)"
  have b: "4 * (6 + i) + 4 \<le> length fat"
    using Cons.prems(1) by simp
  then have "0 \<le> ?v" "?v < 2 ^ (8 * 4)"
    using Cons.prems(2) by auto
  then have w: "pack_into 4 fat (4 * (6 + i)) ?v = Inr (slice_set fat (4 * (6 + i)) (4 * (6 + i) + 4) (le_bytes 4 ?v))"
    using b by (intro pack_into_ok) simp_all
  have "\<exists>fat'. fat_chain_loop n js (slice_set fat (4 * (6 + i)) (4 * (6 + i) + 4) (le_bytes 4 ?v)) = Inr fat'"
    using Cons.prems b by (intro Cons.IH) simp_all
  then obtain fat' where
    r: "fat_chain_loop n js (slice_set fat (4 * (6 + i)) (4 * (6 + i) + 4) (le_bytes 4 ?v)) = Inr fat'"
    by blast
  have "fat_chain_loop n (i # js) fat = ebind (pack_into 4 fat ((6 + i) * 4) ?v) (fat_chain_loop n js)"
    by (cases "i = n - 1") (simp_all add: Let_def)
  also have "\<dots> = ebind (pack_into 4 fat (4 * (6 + i)) ?v) (fat_chain_loop n js)"
    by (simp only: mult.commute)
  also have "\<dots> = Inr fat'"
    by (simp only: w ebind_Inr r)
  finally show ?case
    by blast
qed

lemma create_fat_header:
  "6 \<le> 128 * fat_sz \<Longrightarrow>
   \<exists>fat0. pack_fields (zeros (fat_sz * BYTES_PER_SECTOR))
        [(4, 0, 0x0FFFFFF8), (4, 4, 0x0FFFFFFF), (4, 8, 0x0FFFFFFF), (4, 12, 0x0FFFFFFF),
         (4, 16, 0x0FFFFFFF), (4, 20, 0x0FFFFFFF)] = Inr fat0 \<and> length fat0 = fat_sz * 512"
proof -
  assume a: "6 \<le> 128 * fat_sz"
  define f where "f = [(4, 0, 0x0FFFFFF8), (4, 4, 0x0FFFFFFF), (4, 8, 0x0FFFFFFF), (4, 12, 0x0FFFFFFF),
         (4, 16, 0x0FFFFFFF), (4::nat, 20::nat, 0x0FFFFFFF::int)]"
  have "list_all (\<lambda>(w, off, v). 0 \<le> v \<and> v < 2 ^ (8 * w) \<and> off + w \<le> length (zeros (fat_sz * BYTES_PER_SECTOR))) f"
    using a by (simp add: f_def BYTES_PER_SECTOR_def)
  from pack_fields_ok [OF this] obtain fat0 where p: "pack_fields (zeros (fat_sz * BYTES_PER_SECTOR)) f = Inr fat0"
    by auto
  have "length fat0 = fat_sz * 512"
    using pack_fields_length [OF p] by (simp add: BYTES_PER_SECTOR_def)
  then show ?thesis
    using p unfolding f_def by blast
qed

lemma create_fat_Inr:
  assumes "create_fat ts fat_sz file_size = Inr fat" "0 < file_size"
  defines "n \<equiv> (file_size + BYTES_PER_CLUSTER - 1) div BYTES_PER_CLUSTER"
  shows "length fat = fat_sz * 512" and "4 * (6 + n) \<le> length fat"
    and "\<And>i. i < n \<Longrightarrow> fat_entry fat (6 + i) = Some (if i = n - 1 then 0x0FFFFFFF else 6 + i + 1)"
proof -
  from assms(1,2) obtain fat0 where
    h: "pack_fields (zeros (fat_sz * BYTES_PER_SECTOR))
        [(4, 0, 0x0FFFFFF8), (4, 4, 0x0FFFFFFF), (4, 8, 0x0FFFFFFF), (4, 12, 0x0FFFFFFF),
         (4, 16, 0x0FFFFFFF), (4, 20, 0x0FFFFFFF)] = Inr fat0"
    and l: "fat_chain_loop n [0..<n] fat0 = Inr fat"
    unfolding create_fat_def Let_def n_def by (auto simp: ebind_eq_Inr)
  have l0: "length fat0 = fat_sz * 512"
    using pack_fields_length [OF h] by (simp add: BYTES_PER_SECTOR_def)
  note r = fat_chain_loop_Inr [OF l distinct_upt]
  show "length fat = fat_sz * 512"
    using r l0 by simp
  have npos: "0 < n"
    using assms(2) by (simp add: n_def BYTES_PER_CLUSTER_def SECTORS_PER_CLUSTER_def BYTES_PER_SECTOR_def)
  then have "n - 1 \<in> set [0..<n]"
    by simp
  with r have "4 * (6 + (n - 1)) + 4 \<le> length fat0"
    by blast
  then show "4 * (6 + n) \<le> length fat"
    using npos r by simp
  show "fat_entry fat (6 + i) = Some (if i = n - 1 then 0x0FFFFFFF else 6 + i + 1)" if "i < n" for i
    using r that by simp
qed

lemma create_fat_ok:
  assumes "6 \<le> 128 * fat_sz" "fat_sz * 512 < 2 ^ 32"
    and "6 + (file_size + BYTES_PER_CLUSTER - 1) div BYTES_PER_CLUSTER \<le> 128 * fat_sz"
  shows "\<exists>fat. create_fat ts fat_sz file_size = Inr fat \<and> length fat = fat_sz * 512"
proof -
  define n where "n = (file_size + BYTES_PER_CLUSTER - 1) div BYTES_PER_CLUSTER"
  from create_fat_header [OF assms(1)] obtain fat0 where
    h: "pack_fields (zeros (fat_sz * BYTES_PER_SECTOR))
        [(4, 0, 0x0FFFFFF8), (4, 4, 0x0FFFFFFF), (4, 8, 0x0FFFFFFF), (4, 12, 0x0FFFFFFF),
         (4, 16, 0x0FFFFFFF), (4, 20, 0x0FFFFFFF)] = Inr fat0" and l0: "length fat0 = fat_sz * 512"
    by blast
  show ?thesis
  proof (cases "0 < file_size")
    case False
    then show ?thesis
      using h l0 by (simp add: create_fat_def)
  next
    case True
    have "\<forall>i \<in> set [0..<n]. 4 * (6 + i) + 4 \<le> length fat0"
      using assms(3) l0 by (auto simp: n_def)
    from fat_chain_loop_ok [OF this, of n] assms(2) l0 obtain fat where
      f: "fat_chain_loop n [0..<n] fat0 = Inr fat"
      by auto
    have "length fat = fat_sz * 512"
      using fat_chain_loop_Inr [OF f distinct_upt] l0 by simp
    then show ?thesis
      using True h f by (simp add: create_fat_def Let_def n_def)
  qed
qed

lemma fixed_main_ok_no_elf: "\<exists>img. fixed_main None elf_content = Inr img"
proof -
  obtain boot where boot: "fixed_create_boot_sector = Inr boot"
    using fixed_create_boot_sector_ok by blast
  obtain fsinfo where fsinfo: "fixed_create_fsinfo = Inr fsinfo"
    using fixed_create_fsinfo_ok by blast
  have "6 + (0 + BYTES_PER_CLUSTER - 1) div BYTES_PER_CLUSTER \<le> 128 * fat_size"
    by (simp add: BYTES_PER_CLUSTER_def SECTORS_PER_CLUSTER_def BYTES_PER_SECTOR_def fat_size_def)
  then obtain fat where "create_fat 0 fat_size 0 = Inr fat"
    using create_fat_ok [of fat_size 0 0] by (auto simp: fat_size_def)
  then have fat: "create_fat ts fat_size 0 = Inr fat" for ts
    by (simp add: create_fat_def)
  obtain root where root: "fixed_create_root_directory = Inr root"
    using fixed_create_root_directory_ok by blast
  obtain init where init: "create_init_directory 0 = Inr init"
    using create_init_directory_ok [of 0] by auto
  obtain bin where bin: "create_empty_directory 4 = Inr bin"
    using create_empty_directory_ok by blast
  obtain run where run: "create_empty_directory 5 = Inr run"
    using create_empty_directory_ok by blast
  show ?thesis
    unfolding fixed_main_def Let_def
    by (simp add: boot fsinfo fat root init bin run del: upt_rec_numeral)
qed

lemma slice_append_first: "length xs = n \<Longrightarrow> slice (xs @ ys) 0 n = xs"
  by (simp add: slice_def)

lemma slice_append_skip: "length xs = k \<Longrightarrow> slice (xs @ ys) (k + i) (k + j) = slice ys i j"
  by (simp add: slice_def)

text \<open>
  C2. The backup boot sector. build\_disk.py declares the backup at sector 6 (BPB offset
  50) and writes the boot sector at sector 0 only: in every image its \<open>main\<close> saves,
  sector 6 is all zero while sector 0 starts with the jump opcode 0xEB, so the two sectors
  differ. create\_disk\_fixed.py writes the same 512 bytes at sector 0 and at sector 6.
\<close>

theorem backup_boot_sector:
  "(main kernel_file additional_files config_now readme_now = Inr img \<longrightarrow>
      slice img (6 * 512) (7 * 512) = zeros 512 \<and> img ! 0 = 0xEB \<and>
      slice img (6 * 512) (7 * 512) \<noteq> slice img 0 512) \<and>
   (fixed_main elf_file elf_content = Inr img' \<longrightarrow>
      slice img' (6 * 512) (7 * 512) = slice img' 0 512)"
proof (intro conjI impI)
  assume m: "main kernel_file additional_files config_now readme_now = Inr img"
  note r = main_Inr [OF m]
  show z: "slice img (6 * 512) (7 * 512) = zeros 512"
    using r(3) by simp
  show h: "img ! 0 = 0xEB"
    by (rule r(2))
  have len: "512 \<le> length img"
    using r(1) by simp
  have "slice img 0 512 ! 0 = 0xEB"
    using h len by (simp add: slice_def)
  moreover have "zeros 512 ! 0 \<noteq> (0xEB :: byte)"
    by simp
  ultimately show "slice img (6 * 512) (7 * 512) \<noteq> slice img 0 512"
    unfolding z by metis
next
  assume "fixed_main elf_file elf_content = Inr img'"
  from fixed_main_Inr [OF this] obtain boot fsinfo rest where
    l: "length boot = 512" "length fsinfo = 512"
    and i: "img' = boot @ fsinfo @ zeros 2048 @ boot @ rest"
    by blast
  have a: "slice img' 0 512 = boot"
    unfolding i by (rule slice_append_first [OF l(1)])
  have "length (boot @ fsinfo @ zeros 2048) = 3072"
    using l by simp
  from slice_append_skip [OF this, of "boot @ rest" 0 512]
  have "slice img' 3072 3584 = slice (boot @ rest) 0 512"
    unfolding i by simp
  also have "\<dots> = boot"
    by (rule slice_append_first [OF l(1)])
  finally show "slice img' (6 * 512) (7 * 512) = slice img' 0 512"
    using a by simp
qed

theorem backup_boot_sector_witness:
  "\<exists>img img'.
     main (''build/kernel.bin'', None, sample_now) [] sample_now sample_now = Inr img \<and>
     slice img (6 * 512) (7 * 512) = zeros 512 \<and> img ! 0 = 0xEB \<and>
     slice img (6 * 512) (7 * 512) \<noteq> slice img 0 512 \<and>
     fixed_main None None = Inr img' \<and>
     slice img' (6 * 512) (7 * 512) = slice img' 0 512"
proof -
  have fc: "file_clusters (''build/kernel.bin'', None, sample_now) = 0"
    by (simp add: file_clusters_def)
  obtain img where m: "main (''build/kernel.bin'', None, sample_now) [] sample_now sample_now = Inr img"
    using main_ok [OF now_ok_sample now_ok_sample now_ok_sample, of "''build/kernel.bin''" None] fc
    by auto
  obtain img' where f: "fixed_main None None = Inr img'"
    using fixed_main_ok_no_elf by blast
  from backup_boot_sector [of "(''build/kernel.bin'', None, sample_now)" "[]" sample_now sample_now
      img None None img'] m f
  show ?thesis
    by blast
qed

lemma add_files_skip_missing:
  "add_files b fs = add_files b (filter (\<lambda>f. fst (snd f) \<noteq> None) fs)"
proof (induction fs arbitrary: b)
  case Nil
  then show ?case by simp
next
  case (Cons f fs)
  obtain p c n where f: "f = (p, c, n)"
    by (cases f) auto
  show ?case
  proof (cases c)
    case None
    then show ?thesis
      using Cons.IH [of b] by (simp add: f add_file_def)
  next
    case (Some d)
    then show ?thesis
      using Cons.IH by (cases "add_file b f None") (simp_all add: f)
  qed
qed

lemma chain_shape_consecutive:
  assumes "\<And>i. i + 1 < n \<Longrightarrow> entry (f + i) = Some (f + i + 1)"
    and "f + n \<le> 0x0FFFFFF8"
    and "entry (f + n - 1) = Some v" "is_eoc v" "0 < n" "n \<le> fuel"
  shows "chain_shape entry fuel f n"
proof -
  have c: "fat_chain entry fuel f = Some [f..<f + n]"
    by (rule fat_chain_consecutive [OF assms])
  have "last [f..<f + n] = f + n - 1"
    using assms(5) by (simp add: last_upt)
  moreover have "\<exists>v. entry ([f..<f + n] ! i) = Some v \<and> [f..<f + n] ! i < v \<and> v = [f..<f + n] ! (i + 1)"
    if "i + 1 < n" for i
    using assms(1) [OF that] that by simp
  ultimately show ?thesis
    unfolding chain_shape_def using c assms(3,4)
    by (intro exI [of _ "[f..<f + n]"]) simp
qed

text \<open>
  C4. For a file of size \<open>S > 0\<close> the FAT chain has exactly \<open>ceil(S / bytesPerCluster)\<close>
  entries, every entry but the last holds a cluster index greater than its own (the next
  cluster of the chain), and the last holds an end-of-chain marker: in the table of
  build\_disk.py after \<open>add_file_to_directory\<close>, and in the serialized table of
  \<open>create_fat\<close> in create\_disk\_fixed.py, whose chain starts at cluster 6.
\<close>

theorem fat_chain_shape:
  "(builder_inv b \<and> file_data \<noteq> [] \<and> add_file_to_directory b name file_data now = Inr b' \<longrightarrow>
      chain_shape (table_entry (fat_table b')) (length (fat_table b')) (next_free_cluster b)
        ((length file_data + bytes_per_cluster b - 1) div bytes_per_cluster b)) \<and>
   (0 < file_size \<and> create_fat ts fat_size file_size = Inr fat \<longrightarrow>
      chain_shape (fat_entry fat) (length fat div 4) 6
        ((file_size + BYTES_PER_CLUSTER - 1) div BYTES_PER_CLUSTER))"
proof (intro conjI impI)
  assume a: "builder_inv b \<and> file_data \<noteq> [] \<and> add_file_to_directory b name file_data now = Inr b'"
  then have inv: "builder_inv b" and ne: "file_data \<noteq> []"
    and ok: "add_file_to_directory b name file_data now = Inr b'"
    by simp_all
  let ?n = "clusters_for b file_data" and ?f = "next_free_cluster b"
  have g: "bytes_per_cluster b = 4096" "3 \<le> ?f" "length (fat_table b) = 32768"
    using inv by (simp_all add: builder_inv_def)
  have npos: "0 < ?n"
    by (rule clusters_for_pos [OF g(1) ne])
  from add_file_to_directory_dir(2) [OF ok inv] ne have
    lf: "length (fat_table b') = 32768" and cap: "?f + ?n \<le> 32768"
    and link: "\<And>i. i + 1 < ?n \<Longrightarrow> fat_table b' ! (?f + i) = ?f + i + 1"
    and last: "fat_table b' ! (?f + ?n - 1) = 0x0FFFFFFF"
    by (simp_all add: g)
  have "chain_shape (table_entry (fat_table b')) (length (fat_table b')) ?f ?n"
  proof (rule chain_shape_consecutive)
    show "table_entry (fat_table b') (?f + i) = Some (?f + i + 1)" if "i + 1 < ?n" for i
      using link [OF that] that cap lf by (simp add: table_entry_def)
    show "?f + ?n \<le> 0x0FFFFFF8"
      using cap by simp
    show "table_entry (fat_table b') (?f + ?n - 1) = Some 0x0FFFFFFF"
      using last npos cap lf by (simp add: table_entry_def)
    show "is_eoc 0x0FFFFFFF"
      by (simp add: is_eoc_def)
    show "0 < ?n" by fact
    show "?n \<le> length (fat_table b')"
      using cap lf by simp
  qed
  then show "chain_shape (table_entry (fat_table b')) (length (fat_table b')) ?f
        ((length file_data + bytes_per_cluster b - 1) div bytes_per_cluster b)"
    by (simp add: clusters_for_def)
next
  assume a: "0 < file_size \<and> create_fat ts fat_size file_size = Inr fat"
  let ?n = "(file_size + BYTES_PER_CLUSTER - 1) div BYTES_PER_CLUSTER"
  note r = create_fat_Inr [OF conjunct2 [OF a] conjunct1 [OF a]]
  have npos: "0 < ?n"
    using conjunct1 [OF a]
    by (simp add: BYTES_PER_CLUSTER_def SECTORS_PER_CLUSTER_def BYTES_PER_SECTOR_def)
  have len: "length fat = 81920"
    using r(1) by (simp add: fat_size_def)
  show "chain_shape (fat_entry fat) (length fat div 4) 6 ?n"
  proof (rule chain_shape_consecutive)
    show "fat_entry fat (6 + i) = Some (6 + i + 1)" if "i + 1 < ?n" for i
      using r(3) [of i] that by simp
    show "6 + ?n \<le> 0x0FFFFFF8"
      using r(2) len by simp
    show "fat_entry fat (6 + ?n - 1) = Some 0x0FFFFFFF"
      using r(3) [of "?n - 1"] npos by simp
    show "is_eoc 0x0FFFFFFF"
      by (simp add: is_eoc_def)
    show "0 < ?n" by fact
    show "?n \<le> length fat div 4"
      using r(2) by simp
  qed
qed

theorem fat_chain_shape_witness:
  "\<exists>b' fat.
     builder_inv (Fat32DiskBuilder 32) \<and> [72, 105] \<noteq> ([] :: byte list) \<and>
     add_file_to_directory (Fat32DiskBuilder 32) ''HELLO.TXT'' [72, 105] sample_now = Inr b' \<and>
     chain_shape (table_entry (fat_table b')) (length (fat_table b')) 3 1 \<and>
     (0 :: nat) < 5000 \<and> create_fat 65536 fat_size 5000 = Inr fat \<and>
     chain_shape (fat_entry fat) (length fat div 4) 6 2"
proof -
  let ?b = "Fat32DiskBuilder 32"
  obtain b' where ok: "add_file_to_directory ?b ''HELLO.TXT'' [72, 105] sample_now = Inr b'"
    using add_sample_ok [of "[72, 105]"] by auto
  have inv: "builder_inv ?b"
    by (rule builder_inv_init) simp
  have "6 + (5000 + BYTES_PER_CLUSTER - 1) div BYTES_PER_CLUSTER \<le> 128 * fat_size"
    by (simp add: BYTES_PER_CLUSTER_def SECTORS_PER_CLUSTER_def BYTES_PER_SECTOR_def fat_size_def)
  then obtain fat where fat: "create_fat 65536 fat_size 5000 = Inr fat"
    using create_fat_ok [of fat_size 5000 65536] by (auto simp: fat_size_def)
  have n: "(length [72 :: byte, 105] + bytes_per_cluster ?b - 1) div bytes_per_cluster ?b = 1"
    "next_free_cluster ?b = 3"
    "(5000 + BYTES_PER_CLUSTER - 1) div BYTES_PER_CLUSTER = 2"
    by (simp_all add: Fat32DiskBuilder_def BYTES_PER_CLUSTER_def SECTORS_PER_CLUSTER_def
        BYTES_PER_SECTOR_def)
  from fat_chain_shape [of ?b "[72, 105]" "''HELLO.TXT''" sample_now b' 5000 65536 fat]
  show ?thesis
    using ok inv fat unfolding n by (intro exI [of _ b'] exI [of _ fat]) simp
qed

text \<open>
  With a well-formed name and room in the FAT, \<open>add_file_to_directory\<close> fails exactly
  when the directory insertion fails, and with the same error.
\<close>

lemma add_file_to_directory_Inl:
  assumes inv: "builder_inv b" and fn: "fat_filename_of name = Inr fn"
    and cap: "next_free_cluster b + clusters_for b file_data \<le> 32768"
  shows "add_file_to_directory b name file_data now = Inl e \<longleftrightarrow>
         insert_entry name (read_cluster b 2) fn (if file_data = [] then 0 else next_free_cluster b)
           (length file_data) now = Inl e"
proof -
  define n where "n = clusters_for b file_data"
  define ofs where "ofs = cluster_offset b (next_free_cluster b)"
  have g: "bytes_per_cluster b = 4096" "sector_size b = 512" "root_cluster b = 2"
    "cluster_to_sector b 2 = 544" "3 \<le> next_free_cluster b" "ofs \<le> length (disk_image b)"
    "length (fat_table b) = 32768"
    using inv by (simp_all add: builder_inv_def cluster_to_sector_def ofs_def)
  have ofs: "ofs = 278528 + (next_free_cluster b - 2) * 4096"
    unfolding ofs_def using g(5) by (intro cluster_offset_inv [OF inv]) simp
  have ofs3: "282624 \<le> ofs"
    using g(5) unfolding ofs by simp
  have n: "n = (length file_data + 4096 - 1) div 4096"
    by (simp add: n_def clusters_for_def g)
  have n': "(length file_data + bytes_per_cluster b - 1) div bytes_per_cluster b = n"
    by (simp add: n_def clusters_for_def)
  define img where "img = take ofs (disk_image b) @ padded_payload b file_data
                          @ drop (ofs + n * 4096) (disk_image b)"
  have dir: "slice img 278528 282624 = read_cluster b 2"
    unfolding img_def read_cluster_def cluster_offset_def g
    using ofs3 g(6) by (simp add: slice_take_append)
  have iff: "ebind m (\<lambda>d. Inr (k d)) = Inl e \<longleftrightarrow> m = Inl e" for m :: "error + byte list" and k :: "byte list \<Rightarrow> builder"
    by (cases m) simp_all
  show ?thesis
  proof (cases "file_data = []")
    case True
    have n0: "n = 0"
      using True n by simp
    have f: "fold (write_chunk b 0 file_data) [0..<n] (disk_image b) = img"
      by (simp add: n0 img_def True padded_payload_def clusters_for_empty [OF g(1)])
    have "add_file_to_directory b name file_data now =
          ebind (insert_entry name (read_cluster b 2) fn 0 (length file_data) now)
            (\<lambda>d. Inr (b\<lparr>disk_image := slice_set img 278528 282624 d\<rparr>))"
      unfolding add_file_to_directory_def Let_def n'
      using fn True f dir by (simp add: g)
    then show ?thesis
      using True by (simp add: iff)
  next
    case False
    have npos: "0 < n"
      unfolding n_def by (rule clusters_for_pos [OF g(1) False])
    from alloc_phase_ok [of b n] cap npos obtain b2 where
      ph: "ebind (allocate_cluster b) (\<lambda>(first_cluster, b1).
            ebind (alloc_loop [1..<n] first_cluster b1) (\<lambda>b2. Inr (first_cluster, b2)))
         = Inr (next_free_cluster b, b2)"
      by (auto simp: g n_def)
    then obtain b1 where a: "allocate_cluster b = Inr (next_free_cluster b, b1)"
      and l: "alloc_loop [1..<n] (next_free_cluster b) b1 = Inr b2"
      by (auto simp: ebind_eq_Inr)
    have b2: "b2 = b\<lparr>fat_table := fat_table b2, next_free_cluster := next_free_cluster b + n\<rparr>"
      using alloc_phase [OF a l npos] by simp
    have im2: "disk_image b2 = disk_image b"
      by (subst b2) simp
    have f: "fold (write_chunk b (next_free_cluster b) file_data) [0..<n] (disk_image b2) = img"
      unfolding im2 img_def n_def ofs_def
      using g(5,6) by (intro fold_write_chunk_all [OF inv]) (simp_all add: ofs_def)
    have "add_file_to_directory b name file_data now =
          ebind (insert_entry name (read_cluster b 2) fn (next_free_cluster b) (length file_data) now)
            (\<lambda>d. Inr (b2\<lparr>disk_image := slice_set img 278528 282624 d\<rparr>))"
      unfolding add_file_to_directory_def Let_def n'
      using fn False ph f dir by (simp add: g)
    then show ?thesis
      using False by (simp add: iff)
  qed
qed

text \<open>
  C6. Directory insertion. The root directory is one cluster of \<open>bytesPerCluster / 32\<close>
  slots. The new 32-byte entry is written into the first slot whose first byte is 0x00 or
  0xE5, the slots before it are kept, the directory stays one cluster long and its FAT
  entry is not touched; the insertion raises DirectoryFull exactly when no slot is free,
  and with a free slot and a clock reading in the FAT date range it succeeds.
\<close>

theorem directory_insertion:
  assumes inv: "builder_inv b" and fn: "fat_filename_of name = Inr fn"
    and cap: "next_free_cluster b + clusters_for b file_data \<le> 32768"
  shows "length (read_cluster b 2) = bytes_per_cluster b \<and>
         (add_file_to_directory b name file_data now = Inl (DirectoryFull name) \<longleftrightarrow>
            (\<forall>j. \<not> free_slot (read_cluster b 2) j)) \<and>
         (\<forall>b'. add_file_to_directory b name file_data now = Inr b' \<longrightarrow>
            (\<exists>i e. free_slot (read_cluster b 2) i \<and> (\<forall>j < i. \<not> free_slot (read_cluster b 2) j) \<and>
               make_entry fn (if file_data = [] then 0 else next_free_cluster b) (length file_data) now
                 = Inr e \<and>
               length e = 32 \<and> slice (read_cluster b' 2) i (i + 32) = e \<and>
               take i (read_cluster b' 2) = take i (read_cluster b 2)) \<and>
            length (read_cluster b' 2) = bytes_per_cluster b' \<and>
            fat_table b' ! 2 = fat_table b ! 2) \<and>
         ((\<exists>j. free_slot (read_cluster b 2) j) \<and> now_ok now \<longrightarrow>
            (\<exists>b'. add_file_to_directory b name file_data now = Inr b'))"
proof (intro conjI allI impI)
  have g: "bytes_per_cluster b = 4096" "3 \<le> next_free_cluster b"
    using inv by (simp_all add: builder_inv_def)
  show "length (read_cluster b 2) = bytes_per_cluster b"
    using read_cluster_root_length [OF inv] g by simp
  show "add_file_to_directory b name file_data now = Inl (DirectoryFull name) \<longleftrightarrow>
          (\<forall>j. \<not> free_slot (read_cluster b 2) j)"
    unfolding add_file_to_directory_Inl [OF inv fn cap] insert_entry_full by simp
next
  fix b' assume ok: "add_file_to_directory b name file_data now = Inr b'"
  from add_file_to_directory_entry [OF ok inv] fn obtain i e where
    e: "free_slot (read_cluster b 2) i" "\<forall>j < i. \<not> free_slot (read_cluster b 2) j"
      "make_entry fn (if file_data = [] then 0 else next_free_cluster b) (length file_data) now = Inr e"
      "slice (read_cluster b' 2) i (i + 32) = e" "take i (read_cluster b' 2) = take i (read_cluster b 2)"
    by auto
  have "length e = 32"
    by (rule make_entry_Inr(1) [OF e(3) fat_filename_length [OF fn]])
  with e show "\<exists>i e. free_slot (read_cluster b 2) i \<and> (\<forall>j < i. \<not> free_slot (read_cluster b 2) j) \<and>
               make_entry fn (if file_data = [] then 0 else next_free_cluster b) (length file_data) now
                 = Inr e \<and>
               length e = 32 \<and> slice (read_cluster b' 2) i (i + 32) = e \<and>
               take i (read_cluster b' 2) = take i (read_cluster b 2)"
    by blast
  have inv': "builder_inv b'"
    by (rule add_file_to_directory_effect(1) [OF ok inv])
  show "length (read_cluster b' 2) = bytes_per_cluster b'"
    using read_cluster_root_length [OF inv'] inv' by (simp add: builder_inv_def)
  have "2 < next_free_cluster b"
    using inv by (simp add: builder_inv_def)
  then show "fat_table b' ! 2 = fat_table b ! 2"
    using add_file_to_directory_dir(2) [OF ok inv] by simp
next
  assume "(\<exists>j. free_slot (read_cluster b 2) j) \<and> now_ok now"
  then obtain j where "free_slot (read_cluster b 2) j" "now_ok now"
    by blast
  then show "\<exists>b'. add_file_to_directory b name file_data now = Inr b'"
    using add_file_to_directory_ok [OF inv _ fn _ cap] by blast
qed

theorem directory_insertion_witness:
  "builder_inv (Fat32DiskBuilder 32) \<and>
   fat_filename_of ''HELLO.TXT'' = Inr (bytes_of ''HELLO   TXT'') \<and>
   next_free_cluster (Fat32DiskBuilder 32) + clusters_for (Fat32DiskBuilder 32) [72, 105] \<le> 32768 \<and>
   free_slot (read_cluster (Fat32DiskBuilder 32) 2) 0 \<and> now_ok sample_now \<and>
   add_file_to_directory (Fat32DiskBuilder 32) ''HELLO.TXT'' [72, 105] sample_now
     \<noteq> Inl (DirectoryFull ''HELLO.TXT'') \<and>
   (\<exists>b' e. add_file_to_directory (Fat32DiskBuilder 32) ''HELLO.TXT'' [72, 105] sample_now = Inr b' \<and>
      make_entry (bytes_of ''HELLO   TXT'') 3 2 sample_now = Inr e \<and>
      slice (read_cluster b' 2) 0 32 = e \<and>
      length (read_cluster b' 2) = bytes_per_cluster b' \<and>
      fat_table b' ! 2 = fat_table (Fat32DiskBuilder 32) ! 2)"
proof -
  let ?b = "Fat32DiskBuilder 32"
  have inv: "builder_inv ?b"
    by (rule builder_inv_init) simp
  have cap: "next_free_cluster ?b + clusters_for ?b [72, 105] \<le> 32768"
    by (simp add: clusters_for_def Fat32DiskBuilder_def)
  have "dir_free_from ?b 0"
    by (rule dir_free_from_init) simp
  from dir_free_from_slot [OF this _ inv] have slot: "free_slot (read_cluster ?b 2) 0"
    by simp
  note t = directory_insertion [OF inv fat_filename_sample cap, of sample_now]
  from t slot now_ok_sample obtain b' where
    ok: "add_file_to_directory ?b ''HELLO.TXT'' [72, 105] sample_now = Inr b'"
    by blast
  from t ok obtain i e where
    e: "free_slot (read_cluster ?b 2) i" "\<forall>j < i. \<not> free_slot (read_cluster ?b 2) j"
      "make_entry (bytes_of ''HELLO   TXT'') (if [72, 105] = ([] :: byte list) then 0 else next_free_cluster ?b)
         (length [72 :: byte, 105]) sample_now = Inr e"
      "slice (read_cluster b' 2) i (i + 32) = e"
      and r: "length (read_cluster b' 2) = bytes_per_cluster b'" "fat_table b' ! 2 = fat_table ?b ! 2"
    by blast
  have "\<not> 0 < i"
    using e(2) slot by blast
  then have i0: "i = 0"
    by simp
  have nf: "next_free_cluster ?b = 3"
    by (simp add: Fat32DiskBuilder_def)
  have "make_entry (bytes_of ''HELLO   TXT'') 3 2 sample_now = Inr e"
    using e(3) by (simp add: nf numeral_2_eq_2)
  then show ?thesis
    using inv cap slot now_ok_sample ok e(4) r i0 fat_filename_sample by auto
qed

text \<open>The loop over the additional files succeeds while the FAT and the directory have room.\<close>

lemma add_files_ok:
  assumes "main_inv b" "dir_free_from b k" "k + length fs \<le> 128" "list_all file_ok fs"
    and "next_free_cluster b + sum_list (map file_clusters fs) \<le> 32768"
  shows "\<exists>b'. add_files b fs = Inr b' \<and> main_inv b' \<and> dir_free_from b' (k + length fs) \<and>
           next_free_cluster b' = next_free_cluster b + sum_list (map file_clusters fs)"
  using assms
proof (induction fs arbitrary: b k)
  case Nil
  then show ?case by simp
next
  case (Cons f fs)
  obtain p c n where f: "f = (p, c, n)"
    by (cases f) auto
  have k: "k < 128" "Suc k + length fs \<le> 128"
    using Cons.prems(3) by simp_all
  have "\<exists>b1. add_file b f None = Inr b1 \<and> main_inv b1 \<and> dir_free_from b1 (Suc k) \<and>
          next_free_cluster b1 = next_free_cluster b + file_clusters f"
  proof (cases c)
    case None
    then show ?thesis
      using Cons.prems(1) dir_free_from_mono [OF Cons.prems(2), of "Suc k"] k
      by (simp add: f add_file_def file_clusters_def)
  next
    case (Some d)
    from Cons.prems(4) f obtain fn where fn: "fat_filename_of (basename p) = Inr fn" and n: "now_ok n"
      by (cases "fat_filename_of (basename p)") (simp_all add: file_ok_def)
    have "next_free_cluster b + payload_clusters d \<le> 32768"
      using Cons.prems(5) f Some by (simp add: file_clusters_def)
    from main_step_ok [OF Cons.prems(1,2) k(1) fn n this] show ?thesis
      using f Some by (simp add: add_file_def file_clusters_def)
  qed
  then obtain b1 where b1: "add_file b f None = Inr b1" "main_inv b1" "dir_free_from b1 (Suc k)"
    "next_free_cluster b1 = next_free_cluster b + file_clusters f"
    by blast
  have "next_free_cluster b1 + sum_list (map file_clusters fs) \<le> 32768"
    using Cons.prems(5) b1(4) by simp
  from Cons.IH [OF b1(2,3) k(2) _ this] Cons.prems(4) obtain b' where
    "add_files b1 fs = Inr b'" "main_inv b'" "dir_free_from b' (Suc k + length fs)"
    "next_free_cluster b' = next_free_cluster b1 + sum_list (map file_clusters fs)"
    by auto
  then show ?case
    using b1(1,4) by simp
qed

text \<open>\<open>main\<close> succeeds on files that fit, with names that encode and clocks in the FAT range.\<close>

lemma main_files_ok:
  assumes "now_ok cn" "now_ok rn" "list_all file_ok (kernel_file # additional_files)"
    and "length additional_files \<le> 120"
    and "file_clusters kernel_file + sum_list (map file_clusters additional_files) \<le> 32000"
  shows "\<exists>img. main kernel_file additional_files cn rn = Inr img"
proof -
  obtain p content kn where kf: "kernel_file = (p, content, kn)"
    by (cases kernel_file) auto
  have kn: "now_ok kn"
    using assms(3) kf by (simp add: file_ok_def)
  from main_setup obtain b where
    m: "main kernel_file additional_files cn rn =
            ebind (add_file b kernel_file (Some ''KERNEL.BIN'')) (\<lambda>b4.
            ebind (add_files b4 additional_files) (\<lambda>b5.
            ebind (add_file_to_directory b5 ''CONFIG.TXT'' config_data cn) (\<lambda>b6.
            ebind (add_file_to_directory b6 ''README.TXT'' readme_data rn) (\<lambda>b7.
            ebind (write_fat_tables b7) (\<lambda>b8. Inr (save b8))))))"
    and mi: "main_inv b" and df: "dir_free_from b 1" and nf: "next_free_cluster b = 3"
    by blast
  have "\<exists>b4. add_file b kernel_file (Some ''KERNEL.BIN'') = Inr b4 \<and> main_inv b4 \<and>
          dir_free_from b4 2 \<and> next_free_cluster b4 = 3 + file_clusters kernel_file"
  proof (cases content)
    case None
    then show ?thesis
      using mi nf dir_free_from_mono [OF df, of 2] by (simp add: kf add_file_def file_clusters_def)
  next
    case (Some d)
    have "next_free_cluster b + payload_clusters d \<le> 32768"
      using assms(5) nf Some kf by (simp add: file_clusters_def)
    from main_step_ok [OF mi df _ fat_filename_kernel kn this] obtain b4 where
      "add_file_to_directory b ''KERNEL.BIN'' d kn = Inr b4" "main_inv b4" "dir_free_from b4 (Suc 1)"
      "next_free_cluster b4 = next_free_cluster b + payload_clusters d"
      by auto
    then show ?thesis
      using Some nf kf by (auto simp: add_file_def file_clusters_def numeral_2_eq_2)
  qed
  then obtain b4 where b4: "add_file b kernel_file (Some ''KERNEL.BIN'') = Inr b4"
    "main_inv b4" "dir_free_from b4 2" "next_free_cluster b4 = 3 + file_clusters kernel_file"
    by blast
  have "2 + length additional_files \<le> 128" "list_all file_ok additional_files"
    "next_free_cluster b4 + sum_list (map file_clusters additional_files) \<le> 32768"
    using assms(3,4,5) b4(4) by simp_all
  from add_files_ok [OF b4(2,3) this] obtain b5 where
    b5: "add_files b4 additional_files = Inr b5" "main_inv b5"
      "dir_free_from b5 (2 + length additional_files)"
      "next_free_cluster b5 = next_free_cluster b4 + sum_list (map file_clusters additional_files)"
    by blast
  have k5: "2 + length additional_files < 128"
    using assms(4) by simp
  have "next_free_cluster b5 + payload_clusters config_data \<le> 32768"
    using b4(4) b5(4) assms(5) by (simp add: payload_clusters_texts)
  from main_step_ok [OF b5(2,3) k5 fat_filename_config assms(1) this] obtain b6 where
    b6: "add_file_to_directory b5 ''CONFIG.TXT'' config_data cn = Inr b6" "main_inv b6"
      "dir_free_from b6 (Suc (2 + length additional_files))"
      "next_free_cluster b6 = next_free_cluster b5 + payload_clusters config_data"
    by auto
  have k6: "Suc (2 + length additional_files) < 128"
    using assms(4) by simp
  have "next_free_cluster b6 + payload_clusters readme_data \<le> 32768"
    using b4(4) b5(4) b6(4) assms(5) by (simp add: payload_clusters_texts)
  from main_step_ok [OF b6(2,3) k6 fat_filename_readme assms(2) this] obtain b7 where
    b7: "add_file_to_directory b6 ''README.TXT'' readme_data rn = Inr b7" "main_inv b7"
    by auto
  from write_fat_tables_ok [OF b7(2)] obtain b8 where b8: "write_fat_tables b7 = Inr b8"
    by blast
  show ?thesis
    unfolding m using b4(1) b5(1) b6(1) b7(1) b8 by simp
qed

lemma file_ok_samples:
  "file_ok (''build/kernel.bin'', Some [0x7F, 0x45], sample_now)"
  "file_ok (''b.txt'', Some [0x68, 0x69], sample_now)"
  "file_ok (''a.txt'', None, sample_now)"
  unfolding file_ok_def by (simp_all add: now_ok_sample) code_simp+

text \<open>
  C8 (amended). In build\_disk.py a declared local path that does not exist is skipped:
  \<open>add_file\<close> returns the builder unchanged, and \<open>main\<close>, whatever the kernel file is,
  produces what it produces for the remaining additional files alone; a missing kernel
  file is skipped in the same way, whatever its path. In create\_disk\_fixed.py a non-empty
  ELF path that is not a file ends the run with exit status 1 and no image.
\<close>

theorem missing_input_file:
  "add_file b (local_path, None, now) disk_filename = Inr b \<and>
   main kernel_file additional_files config_now readme_now =
     main kernel_file (filter (\<lambda>f. fst (snd f) \<noteq> None) additional_files) config_now readme_now \<and>
   main (kernel_path, None, kernel_now) additional_files config_now readme_now =
     main (kernel_path', None, kernel_now')
       (filter (\<lambda>f. fst (snd f) \<noteq> None) additional_files) config_now readme_now \<and>
   (elf_path \<noteq> [] \<longrightarrow> fixed_main (Some elf_path) None = Inl (SysExit 1))"
proof -
  have "add_file b' (p, None, n) d = Inr b'" for b' p n d
    by (simp add: add_file_def)
  then show ?thesis
    unfolding main_def add_files_skip_missing [of _ additional_files, symmetric]
    by (simp add: fixed_main_def)
qed

theorem missing_input_file_witness:
  "\<exists>img.
     main (''build/kernel.bin'', Some [0x7F, 0x45], sample_now)
       [(''a.txt'', None, sample_now), (''b.txt'', Some [0x68, 0x69], sample_now)]
       sample_now sample_now = Inr img \<and>
     main (''build/kernel.bin'', Some [0x7F, 0x45], sample_now)
       [(''b.txt'', Some [0x68, 0x69], sample_now)] sample_now sample_now = Inr img \<and>
     add_file (Fat32DiskBuilder 32) (''a.txt'', None, sample_now) None = Inr (Fat32DiskBuilder 32) \<and>
     main (''build/kernel.bin'', None, sample_now)
       [(''a.txt'', None, sample_now), (''b.txt'', Some [0x68, 0x69], sample_now)] sample_now sample_now =
       main (''kernel.bin'', None, sample_now)
         [(''b.txt'', Some [0x68, 0x69], sample_now)] sample_now sample_now \<and>
     ''shell.elf'' \<noteq> [] \<and> fixed_main (Some ''shell.elf'') None = Inl (SysExit 1)"
proof -
  have "file_clusters (''build/kernel.bin'', Some [0x7F, 0x45], sample_now)
        + sum_list (map file_clusters [(''b.txt'', Some [0x68, 0x69], sample_now)]) \<le> 32000"
    by (simp add: file_clusters_def payload_clusters_def)
  from main_files_ok [OF now_ok_sample now_ok_sample _ _ this]
  obtain img where m: "main (''build/kernel.bin'', Some [0x7F, 0x45], sample_now)
       [(''b.txt'', Some [0x68, 0x69], sample_now)] sample_now sample_now = Inr img"
    using file_ok_samples by auto
  from missing_input_file [of "Fat32DiskBuilder 32" "''a.txt''" sample_now None
      "(''build/kernel.bin'', Some [0x7F, 0x45], sample_now)"
      "[(''a.txt'', None, sample_now), (''b.txt'', Some [0x68, 0x69], sample_now)]" sample_now sample_now
      "''build/kernel.bin''" sample_now "''kernel.bin''" sample_now "''shell.elf''"] m
  show ?thesis
    by simp
qed

text \<open>
  The claim as stated fails for create\_disk\_fixed.py: a declared ELF path that is not a
  file makes the build fail.
\<close>

theorem missing_input_file_counterexample:
  "fixed_main (Some ''shell.elf'') None = Inl (SysExit 1)"
  by (simp add: fixed_main_def)

lemma drop_split:
  assumes ab: "a \<le> b" and bc: "b \<le> c"
  shows "drop a xs = slice xs a b @ slice xs b c @ drop c xs"
proof -
  have 1: "drop (b - a) (drop a xs) = drop b xs"
    using ab by (simp only: drop_drop le_add_diff_inverse2)
  have 2: "drop (c - b) (drop b xs) = drop c xs"
    using bc by (simp only: drop_drop le_add_diff_inverse2)
  have "drop a xs = take (b - a) (drop a xs) @ drop (b - a) (drop a xs)"
    by (simp only: append_take_drop_id)
  also have "\<dots> = take (b - a) (drop a xs) @ take (c - b) (drop b xs) @ drop (c - b) (drop b xs)"
    by (simp only: 1 append_take_drop_id)
  finally show ?thesis
    by (simp only: 2 slice_def)
qed

lemma add_file_to_directory_rest:
  assumes ok: "add_file_to_directory b name file_data now = Inr b'" and inv: "builder_inv b"
  shows "drop (cluster_offset b (next_free_cluster b) + clusters_for b file_data * 4096) (disk_image b')
         = drop (cluster_offset b (next_free_cluster b) + clusters_for b file_data * 4096) (disk_image b)"
proof -
  let ?n = "clusters_for b file_data" and ?ofs = "cluster_offset b (next_free_cluster b)"
  from add_file_to_directory_Inr [OF ok inv] obtain fn fat' dir' where
    fn: "fat_filename_of name = Inr fn"
    and ins: "insert_entry name (read_cluster b 2) fn (if file_data = [] then 0 else next_free_cluster b)
        (length file_data) now = Inr dir'"
    and b': "b' = b\<lparr>disk_image :=
               slice_set (take ?ofs (disk_image b) @ padded_payload b file_data
                          @ drop (?ofs + ?n * 4096) (disk_image b)) 278528 282624 dir',
             fat_table := fat', next_free_cluster := next_free_cluster b + ?n\<rparr>"
    by blast
  define img where "img = take ?ofs (disk_image b) @ padded_payload b file_data
                          @ drop (?ofs + ?n * 4096) (disk_image b)"
  have g: "bytes_per_cluster b = 4096" "3 \<le> next_free_cluster b" "?ofs \<le> length (disk_image b)"
    using inv by (simp_all add: builder_inv_def)
  have ofs: "?ofs = 278528 + (next_free_cluster b - 2) * 4096"
    using g(2) by (intro cluster_offset_inv [OF inv]) simp
  have ofs3: "282624 \<le> ?ofs"
    using g(2) unfolding ofs by simp
  have lpad: "length (padded_payload b file_data) = ?n * 4096"
    by (rule length_padded_payload [OF g(1)])
  have lpre: "length (take ?ofs (disk_image b) @ padded_payload b file_data) = ?ofs + ?n * 4096"
    using g(3) lpad by simp
  have le: "282624 \<le> length img"
    using ofs3 g(3) by (simp add: img_def)
  have ldir: "length dir' = 4096"
    using insert_entry_length [OF ins fat_filename_length [OF fn]] read_cluster_root_length [OF inv]
    by simp
  have im: "disk_image b' = slice_set img 278528 282624 dir'"
    by (subst b') (simp add: img_def)
  have "drop (?ofs + ?n * 4096) (disk_image b') = drop (?ofs + ?n * 4096) img"
    unfolding im using le ldir ofs3 by (intro drop_slice_set_after) simp_all
  also have "\<dots> = drop (?ofs + ?n * 4096) (disk_image b)"
    unfolding img_def using lpre by (metis append.assoc append_eq_conv_conj)
  finally show ?thesis .
qed

text \<open>
  Two insertions of the same file into builders that agree outside the root directory
  cluster, at any two clock readings, leave builders that agree outside that cluster.
\<close>

lemma agree_add_file_to_directory:
  assumes ok1: "add_file_to_directory b1 name file_data now1 = Inr b1'"
    and ok2: "add_file_to_directory b2 name file_data now2 = Inr b2'"
    and inv1: "builder_inv b1" and inv2: "builder_inv b2" and ag: "agree_outside_root b1 b2"
  shows "agree_outside_root b1' b2'"
proof -
  let ?f = "next_free_cluster b1"
  have nfe: "next_free_cluster b2 = ?f" and fe: "fat_table b2 = fat_table b1"
    using ag by (simp_all add: agree_outside_root_def)
  have n: "clusters_for b2 file_data = clusters_for b1 file_data"
    using inv1 inv2 by (simp add: clusters_for_def builder_inv_def)
  let ?n = "clusters_for b1 file_data"
  have g: "3 \<le> ?f" "bytes_per_cluster b1 = 4096"
    using inv1 by (simp_all add: builder_inv_def)
  have co: "cluster_offset b2 c = cluster_offset b1 c" for c
    using inv1 inv2 by (simp add: cluster_offset_def cluster_to_sector_def builder_inv_def)
  let ?ofs = "cluster_offset b1 ?f"
  have ofs: "?ofs = 278528 + (?f - 2) * 4096"
    using g(1) by (intro cluster_offset_inv [OF inv1]) simp
  have ofs3: "282624 \<le> ?ofs"
    using g(1) unfolding ofs by simp
  note e1 = add_file_to_directory_effect [OF ok1 inv1]
  note e2 = add_file_to_directory_effect [OF ok2 inv2, unfolded nfe n co]
  note r1 = add_file_to_directory_rest [OF ok1 inv1]
  note r2 = add_file_to_directory_rest [OF ok2 inv2, unfolded nfe n co]
  have pad: "padded_payload b2 file_data = padded_payload b1 file_data"
    using inv1 inv2 by (simp add: padded_payload_def clusters_for_def builder_inv_def)
  have d: "drop 282624 (disk_image b2) = drop 282624 (disk_image b1)"
    using ag by (simp add: agree_outside_root_def)
  have sl: "slice xs k l = slice (drop 282624 xs) (k - 282624) (l - 282624)"
    if "282624 \<le> k" for xs :: "byte list" and k l
    using that by (simp add: slice_def)
  have dr: "drop k xs = drop (k - 282624) (drop 282624 xs)" if "282624 \<le> k" for xs :: "byte list" and k
    using that by simp
  have le: "?ofs \<le> ?ofs + ?n * 4096"
    by simp
  have "drop 282624 (disk_image b1') =
        slice (disk_image b1) 282624 ?ofs @ padded_payload b1 file_data
        @ drop (?ofs + ?n * 4096) (disk_image b1)"
    using drop_split [OF ofs3 le, of "disk_image b1'"] by (simp only: e1(5,6) r1)
  moreover have "drop 282624 (disk_image b2') =
        slice (disk_image b2) 282624 ?ofs @ padded_payload b1 file_data
        @ drop (?ofs + ?n * 4096) (disk_image b2)"
    using drop_split [OF ofs3 le, of "disk_image b2'"] by (simp only: e2(5,6) r2 pad)
  moreover have "slice (disk_image b2) 282624 ?ofs = slice (disk_image b1) 282624 ?ofs"
    by (simp only: sl [OF order_refl] d)
  moreover have "drop (?ofs + ?n * 4096) (disk_image b2) = drop (?ofs + ?n * 4096) (disk_image b1)"
    using ofs3 by (subst (1 2) dr) (simp_all add: d)
  ultimately have tail: "drop 282624 (disk_image b1') = drop 282624 (disk_image b2')"
    by simp
  have len: "length (disk_image b1') = length (disk_image b2')"
    using e1(3) e2(3) ag by (simp add: agree_outside_root_def)
  have hd: "take 278528 (disk_image b1') = take 278528 (disk_image b2')"
    using e1(4) e2(4) ag by (simp add: agree_outside_root_def)
  have nf: "next_free_cluster b1' = next_free_cluster b2'"
    using e1(2) e2(2) by simp
  from add_file_to_directory_dir(2) [OF ok1 inv1] have
    f1: "length (fat_table b1') = length (fat_table b1)"
      "\<And>j. j < ?f \<or> ?f + ?n \<le> j \<Longrightarrow> fat_table b1' ! j = fat_table b1 ! j"
      "\<And>i. i + 1 < ?n \<Longrightarrow> fat_table b1' ! (?f + i) = ?f + i + 1"
      "file_data \<noteq> [] \<Longrightarrow> fat_table b1' ! (?f + ?n - 1) = 0x0FFFFFFF"
    by auto
  from add_file_to_directory_dir(2) [OF ok2 inv2] have
    f2: "length (fat_table b2') = length (fat_table b1)"
      "\<And>j. j < ?f \<or> ?f + ?n \<le> j \<Longrightarrow> fat_table b2' ! j = fat_table b1 ! j"
      "\<And>i. i + 1 < ?n \<Longrightarrow> fat_table b2' ! (?f + i) = ?f + i + 1"
      "file_data \<noteq> [] \<Longrightarrow> fat_table b2' ! (?f + ?n - 1) = 0x0FFFFFFF"
    unfolding nfe n fe by auto
  have "fat_table b1' ! j = fat_table b2' ! j" for j
  proof (cases "j < ?f \<or> ?f + ?n \<le> j")
    case True
    then show ?thesis
      using f1(2) [of j] f2(2) [of j] by simp
  next
    case False
    then have ne: "file_data \<noteq> []"
      using clusters_for_empty [OF g(2)] by auto
    obtain i where i: "j = ?f + i" "i < ?n"
      using False by (metis add_diff_inverse_nat nat_add_left_cancel_less not_le)
    show ?thesis
    proof (cases "i + 1 < ?n")
      case True
      then show ?thesis
        using f1(3) [of i] f2(3) [of i] i by simp
    next
      case False
      with i have "j = ?f + ?n - 1"
        by simp
      then show ?thesis
        using f1(4) f2(4) ne by simp
    qed
  qed
  then have "fat_table b1' = fat_table b2'"
    using f1(1) f2(1) by (intro nth_equalityI) simp_all
  then show ?thesis
    using nf len hd tail by (simp add: agree_outside_root_def)
qed

lemma agree_off_clock_iff:
  "agree_off_clock d1 d2 \<longleftrightarrow>
     length d1 = length d2 \<and> (\<forall>p < length d1. \<not> clock_field (p mod 32) \<longrightarrow> d1 ! p = d2 ! p)"
  by (auto simp: agree_off_clock_def list_all_iff)

lemma agree_off_clock_refl: "agree_off_clock d d"
  by (simp add: agree_off_clock_iff)

lemma pack_into_agree:
  assumes p1: "pack_into w buf1 off v1 = Inr r1" and p2: "pack_into w buf2 off v2 = Inr r2"
    and len: "length buf1 = length buf2"
    and ag: "\<forall>p < length buf1. \<not> T p \<longrightarrow> buf1 ! p = buf2 ! p"
    and v: "v1 = v2 \<or> (\<forall>p. off \<le> p \<and> p < off + w \<longrightarrow> T p)"
  shows "length r1 = length r2 \<and> (\<forall>p < length r1. \<not> T p \<longrightarrow> r1 ! p = r2 ! p)"
proof -
  from pack_into_Inr [OF p1] have r1: "r1 = slice_set buf1 off (off + w) (le_bytes w v1)"
    and b1: "off + w \<le> length buf1"
    by simp_all
  from pack_into_Inr [OF p2] have r2: "r2 = slice_set buf2 off (off + w) (le_bytes w v2)"
    and b2: "off + w \<le> length buf2"
    by simp_all
  have l1: "length r1 = length buf1" and l2: "length r2 = length buf2"
    using pack_into_length [OF p1] pack_into_length [OF p2] by simp_all
  have "r1 ! p = r2 ! p" if p: "p < length r1" and t: "\<not> T p" for p
  proof -
    have pl: "p < length buf1" "p < length buf2"
      using p l1 len by simp_all
    consider "p < off" | "off \<le> p" "p < off + w" | "off + w \<le> p"
      by linarith
    then show ?thesis
    proof cases
      case 1
      then show ?thesis
        unfolding r1 r2 using pl ag t by (simp add: nth_slice_set_before)
    next
      case 2
      with v t have e: "v1 = v2"
        by auto
      have "p - off < length (le_bytes w v1)"
        using 2 by simp
      then have "slice_set buf1 off (off + w) (le_bytes w v1) ! (off + (p - off)) = le_bytes w v1 ! (p - off)"
        "slice_set buf2 off (off + w) (le_bytes w v1) ! (off + (p - off)) = le_bytes w v1 ! (p - off)"
        using b1 b2 by (simp_all add: nth_slice_set_inside)
      then show ?thesis
        unfolding r1 r2 e [symmetric] using 2 by simp
    next
      case 3
      then show ?thesis
        unfolding r1 r2 using pl ag t b1 b2 by (simp add: nth_slice_set_after)
    qed
  qed
  then show ?thesis
    using l1 l2 len by simp
qed

lemma pack_fields_agree:
  assumes "list_all2 (\<lambda>(w1, off1, v1) (w2, off2, v2). w1 = w2 \<and> off1 = off2 \<and>
             (v1 = v2 \<or> (\<forall>p. off1 \<le> p \<and> p < off1 + w1 \<longrightarrow> T p))) fs1 fs2"
    and "pack_fields buf1 fs1 = Inr r1" and "pack_fields buf2 fs2 = Inr r2"
    and "length buf1 = length buf2"
    and "\<forall>p < length buf1. \<not> T p \<longrightarrow> buf1 ! p = buf2 ! p"
  shows "length r1 = length r2 \<and> (\<forall>p < length r1. \<not> T p \<longrightarrow> r1 ! p = r2 ! p)"
  using assms
proof (induction fs1 fs2 arbitrary: buf1 buf2 rule: list_all2_induct)
  case Nil
  then show ?case by simp
next
  case (Cons f1 fs1 f2 fs2)
  obtain w off v1 where f1: "f1 = (w, off, v1)"
    by (cases f1) auto
  with Cons.hyps(1) obtain v2 where f2: "f2 = (w, off, v2)"
    and v: "v1 = v2 \<or> (\<forall>p. off \<le> p \<and> p < off + w \<longrightarrow> T p)"
    by (cases f2) auto
  from Cons.prems(1) f1 obtain c1 where c1: "pack_into w buf1 off v1 = Inr c1" "pack_fields c1 fs1 = Inr r1"
    by (auto simp: ebind_eq_Inr)
  from Cons.prems(2) f2 obtain c2 where c2: "pack_into w buf2 off v2 = Inr c2" "pack_fields c2 fs2 = Inr r2"
    by (auto simp: ebind_eq_Inr)
  from pack_into_agree [OF c1(1) c2(1) Cons.prems(3,4) v]
  have "length c1 = length c2" "\<forall>p < length c1. \<not> T p \<longrightarrow> c1 ! p = c2 ! p"
    by simp_all
  from Cons.IH [OF c1(2) c2(2) this] show ?case .
qed

text \<open>Two entries made for the same file at two clock readings differ in clock fields only.\<close>

lemma make_entry_agree:
  assumes e1: "make_entry fn fc sz now1 = Inr e1" and e2: "make_entry fn fc sz now2 = Inr e2"
    and q: "q < length e1" "\<not> clock_field q"
  shows "e1 ! q = e2 ! q"
proof -
  let ?e0 = "(slice_set (zeros 32) 0 11 fn)[11 := 0x20]"
  let ?t = "\<lambda>now. push_bit 11 (int (hour now)) OR push_bit 5 (int (minute now)) OR int (second now div 2)"
  let ?d = "\<lambda>now. push_bit 9 (int (year now) - 1980) OR push_bit 5 (int (month now)) OR int (day now)"
  let ?fs = "\<lambda>now. [(2, 14, ?t now), (2, 16, ?d now), (2, 18, ?d now), (2, 20, drop_bit 16 (int fc)),
              (2, 22, ?t now), (2, 24, ?d now), (2, 26, int fc AND 0xFFFF), (4, 28, int sz)]"
  have pf: "pack_fields ?e0 (?fs now1) = Inr e1" "pack_fields ?e0 (?fs now2) = Inr e2"
    using e1 e2 by (simp_all add: make_entry_def Let_def)
  have "list_all2 (\<lambda>(w1, off1, v1) (w2, off2, v2). w1 = w2 \<and> off1 = off2 \<and>
             (v1 = v2 \<or> (\<forall>p. off1 \<le> p \<and> p < off1 + w1 \<longrightarrow> clock_field p))) (?fs now1) (?fs now2)"
    by (simp add: clock_field_def)
  from pack_fields_agree [OF this pf] q show ?thesis
    by simp
qed

lemma mod32_shift:
  assumes "i mod 32 = 0" "i \<le> p"
  shows "(p - i) mod 32 = p mod (32::nat)"
proof -
  from assms(1) obtain m where m: "i = 32 * m"
    by (auto simp: mod_eq_0_iff_dvd)
  from assms(2) obtain k where k: "p = i + k"
    using le_Suc_ex by blast
  show ?thesis
    unfolding k m by simp
qed

lemma free_slot_agree:
  assumes "agree_off_clock d1 d2"
  shows "free_slot d1 j = free_slot d2 j"
proof (cases "j < length d1 \<and> j mod 32 = 0")
  case True
  then have "\<not> clock_field (j mod 32)"
    by (simp add: clock_field_def)
  with True assms have "d1 ! j = d2 ! j" "length d1 = length d2"
    by (simp_all add: agree_off_clock_iff)
  then show ?thesis
    by (simp add: free_slot_def)
next
  case False
  with assms show ?thesis
    by (auto simp: free_slot_def agree_off_clock_iff)
qed

text \<open>The slot scan does not read a clock field, so both runs take the same slot.\<close>

lemma insert_entry_agree:
  assumes i1: "insert_entry name d1 fn fc sz now1 = Inr d1'"
    and i2: "insert_entry name d2 fn fc sz now2 = Inr d2'"
    and fn: "length fn = 11" and len: "length d1 mod 32 = 0" and ag: "agree_off_clock d1 d2"
  shows "agree_off_clock d1' d2'"
proof -
  have l12: "length d2 = length d1"
    using ag by (simp add: agree_off_clock_iff)
  from i1 obtain i where s1: "find_empty_entry d1 0 = Some i"
    by (cases "find_empty_entry d1 0") (simp_all add: insert_entry_def)
  from i2 obtain i' where s2: "find_empty_entry d2 0 = Some i'"
    by (cases "find_empty_entry d2 0") (simp_all add: insert_entry_def)
  note a1 = iffD1 [OF find_empty_entry_first s1]
  have "free_slot d2 i \<and> (\<forall>j < i. \<not> free_slot d2 j)"
    using a1 free_slot_agree [OF ag] by blast
  then have "find_empty_entry d2 0 = Some i"
    by (rule iffD2 [OF find_empty_entry_first])
  with s2 have i': "i' = i"
    by simp
  from i1 s1 obtain e1 where e1: "make_entry fn fc sz now1 = Inr e1"
    by (cases "make_entry fn fc sz now1") (simp_all add: insert_entry_def)
  from i2 s2 obtain e2 where e2: "make_entry fn fc sz now2 = Inr e2"
    by (cases "make_entry fn fc sz now2") (simp_all add: insert_entry_def)
  have le: "length e1 = 32" "length e2 = 32"
    using make_entry_Inr(1) [OF e1 fn] make_entry_Inr(1) [OF e2 fn] by simp_all
  have fs: "i < length d1" "i mod 32 = 0"
    using a1 by (simp_all add: free_slot_def)
  have ib: "i + 32 \<le> length d1"
    using a1 len by (intro free_slot_bound) simp_all
  define D1 where "D1 = slice_set d1 i (i + 32) e1"
  define D2 where "D2 = slice_set d2 i (i + 32) e2"
  have lD: "length D1 = length d1" "length D2 = length d1"
    unfolding D1_def D2_def using ib le l12 by simp_all
  have agD: "D1 ! p = D2 ! p" if p: "p < length d1" and t: "\<not> clock_field (p mod 32)" for p
  proof -
    consider "p < i" | "i \<le> p" "p < i + 32" | "i + 32 \<le> p"
      by linarith
    then show ?thesis
    proof cases
      case 1
      then show ?thesis
        unfolding D1_def D2_def using p t ag l12
        by (simp add: nth_slice_set_before agree_off_clock_iff)
    next
      case 2
      have m: "(p - i) mod 32 = p mod 32"
        using fs(2) 2(1) by (rule mod32_shift)
      have k: "p - i < 32"
        using 2 by simp
      then have "\<not> clock_field (p - i)"
        using t m by simp
      then have ee: "e1 ! (p - i) = e2 ! (p - i)"
        using make_entry_agree [OF e1 e2, of "p - i"] k le by simp
      have "slice_set d1 i (i + 32) e1 ! (i + (p - i)) = e1 ! (p - i)"
        "slice_set d2 i (i + 32) e2 ! (i + (p - i)) = e2 ! (p - i)"
        using fs(1) l12 k le by (simp_all add: nth_slice_set_inside)
      then show ?thesis
        unfolding D1_def D2_def using 2(1) ee by simp
    next
      case 3
      then show ?thesis
        unfolding D1_def D2_def using p t ag l12 ib le
        by (simp add: nth_slice_set_after agree_off_clock_iff)
    qed
  qed
  have r1: "d1' = (if i + 32 < length D1 \<and> D1 ! (i + 32) \<noteq> 0xE5 then D1[i + 32 := 0x00] else D1)"
    using i1 [symmetric] s1 e1 by (simp add: insert_entry_def Let_def D1_def)
  have r2: "d2' = (if i + 32 < length D2 \<and> D2 ! (i + 32) \<noteq> 0xE5 then D2[i + 32 := 0x00] else D2)"
    using i2 [symmetric] s2 e2 by (simp add: insert_entry_def Let_def D2_def i')
  have ceq: "(i + 32 < length D2 \<and> D2 ! (i + 32) \<noteq> 0xE5) = (i + 32 < length D1 \<and> D1 ! (i + 32) \<noteq> 0xE5)"
  proof (cases "i + 32 < length d1")
    case True
    have "\<not> clock_field ((i + 32) mod 32)"
      using fs(2) by (simp add: clock_field_def)
    from agD [OF True this] lD show ?thesis
      by simp
  next
    case False
    with lD show ?thesis
      by simp
  qed
  have upd: "D1[i + 32 := 0] ! p = D2[i + 32 := 0] ! p"
    if "p < length d1" "\<not> clock_field (p mod 32)" for p
    using agD [OF that] that(1) lD by (cases "p = i + 32") simp_all
  show ?thesis
  proof (cases "i + 32 < length D1 \<and> D1 ! (i + 32) \<noteq> 0xE5")
    case True
    have "d1' = D1[i + 32 := 0x00]" "d2' = D2[i + 32 := 0x00]"
      using r1 r2 [unfolded ceq] True by simp_all
    then show ?thesis
      unfolding agree_off_clock_iff using upd lD by simp
  next
    case False
    have "d1' = D1" "d2' = D2"
      using r1 r2 [unfolded ceq] False by simp_all
    then show ?thesis
      unfolding agree_off_clock_iff using agD lD by simp
  qed
qed

lemma read_cluster_root:
  assumes "builder_inv b"
  shows "read_cluster b 2 = slice (disk_image b) 278528 282624"
proof -
  have "cluster_offset b 2 = 278528"
    using cluster_offset_inv [OF assms, of 2] by simp
  moreover have "bytes_per_cluster b = 4096"
    using assms by (simp add: builder_inv_def)
  ultimately show ?thesis
    by (simp add: read_cluster_def)
qed

lemma same_but_clock_refl: "same_but_clock b b"
  by (simp add: same_but_clock_def agree_outside_root_def agree_off_clock_refl)

lemma same_but_clock_add_file_to_directory:
  assumes ok1: "add_file_to_directory b1 name file_data now1 = Inr b1'"
    and ok2: "add_file_to_directory b2 name file_data now2 = Inr b2'"
    and inv1: "builder_inv b1" and inv2: "builder_inv b2" and sc: "same_but_clock b1 b2"
  shows "same_but_clock b1' b2'"
proof -
  have ag: "agree_outside_root b1 b2" and da: "agree_off_clock (read_cluster b1 2) (read_cluster b2 2)"
    using sc by (simp_all add: same_but_clock_def)
  have nf: "next_free_cluster b2 = next_free_cluster b1"
    using ag by (simp add: agree_outside_root_def)
  let ?fc = "if file_data = [] then 0 else next_free_cluster b1"
  from add_file_to_directory_dir(1) [OF ok1 inv1] obtain fn where
    fn: "fat_filename_of name = Inr fn"
    and i1: "insert_entry name (read_cluster b1 2) fn ?fc (length file_data) now1 = Inr (read_cluster b1' 2)"
    by blast
  from add_file_to_directory_dir(1) [OF ok2 inv2] fn have
    i2: "insert_entry name (read_cluster b2 2) fn ?fc (length file_data) now2 = Inr (read_cluster b2' 2)"
    unfolding nf by simp
  have len: "length (read_cluster b1 2) mod 32 = 0"
    by (simp add: read_cluster_root_length [OF inv1])
  have "agree_off_clock (read_cluster b1' 2) (read_cluster b2' 2)"
    by (rule insert_entry_agree [OF i1 i2 fat_filename_length [OF fn] len da])
  then show ?thesis
    using agree_add_file_to_directory [OF ok1 ok2 inv1 inv2 ag] by (simp add: same_but_clock_def)
qed

lemma same_but_clock_add_file:
  assumes ok1: "add_file b1 f1 dn = Inr b1'" and ok2: "add_file b2 f2 dn = Inr b2'"
    and sf: "same_file f1 f2"
    and inv1: "builder_inv b1" and inv2: "builder_inv b2" and sc: "same_but_clock b1 b2"
  shows "same_but_clock b1' b2'"
proof -
  obtain p c n1 where f1: "f1 = (p, c, n1)"
    by (cases f1) auto
  with sf obtain n2 where f2: "f2 = (p, c, n2)"
    by (cases f2) (auto simp: same_file_def)
  show ?thesis
  proof (cases c)
    case None
    with ok1 ok2 sc f1 f2 show ?thesis
      by (simp add: add_file_def)
  next
    case (Some d)
    let ?name = "case dn of None \<Rightarrow> basename p | Some n \<Rightarrow> n"
    have "add_file_to_directory b1 ?name d n1 = Inr b1'" "add_file_to_directory b2 ?name d n2 = Inr b2'"
      using ok1 ok2 f1 f2 Some by (simp_all add: add_file_def)
    from same_but_clock_add_file_to_directory [OF this inv1 inv2 sc] show ?thesis .
  qed
qed

lemma same_but_clock_add_files:
  assumes "list_all2 same_file fs1 fs2"
    and "add_files b1 fs1 = Inr b1'" and "add_files b2 fs2 = Inr b2'"
    and "main_inv b1" and "main_inv b2" and "same_but_clock b1 b2"
  shows "same_but_clock b1' b2'"
  using assms
proof (induction fs1 fs2 arbitrary: b1 b2 rule: list_all2_induct)
  case Nil
  then show ?case by simp
next
  case (Cons f1 fs1 f2 fs2)
  from Cons.prems(1) obtain c1 where c1: "add_file b1 f1 None = Inr c1" "add_files c1 fs1 = Inr b1'"
    by (auto simp: ebind_eq_Inr)
  from Cons.prems(2) obtain c2 where c2: "add_file b2 f2 None = Inr c2" "add_files c2 fs2 = Inr b2'"
    by (auto simp: ebind_eq_Inr)
  have inv: "builder_inv b1" "builder_inv b2"
    using Cons.prems(3,4) by (simp_all add: main_inv_def)
  have mi: "main_inv c1" "main_inv c2"
    using main_inv_add_file [OF c1(1) Cons.prems(3)] main_inv_add_file [OF c2(1) Cons.prems(4)]
    by simp_all
  have "same_but_clock c1 c2"
    by (rule same_but_clock_add_file [OF c1(1) c2(1) Cons.hyps(1) inv Cons.prems(5)])
  from Cons.IH [OF c1(2) c2(2) mi this] show ?case .
qed

text \<open>\<open>write_fat_tables\<close> replaces the bytes 16384 to 278527 by two copies of the packed FAT.\<close>

lemma write_fat_tables_Inr:
  assumes ok: "write_fat_tables b = Inr b'" and mi: "main_inv b"
  shows "\<exists>p. pack_entries (fat_table b) = Inr p \<and> length p = 131072 \<and>
           take 278528 (disk_image b') = take 16384 (disk_image b) @ p @ p \<and>
           drop 278528 (disk_image b') = drop 278528 (disk_image b) \<and>
           length (disk_image b') = length (disk_image b)"
proof -
  have g: "sector_size b = 512" "fat_count b = 2" "fat_start_sector b = 32" "sectors_per_fat b = 256"
    "length (fat_table b) = 32768"
    using mi by (simp_all add: main_inv_def builder_inv_def)
  have le: "278528 \<le> length (disk_image b)"
    using mi by (simp add: main_inv_def)
  obtain p where p: "pack_entries (fat_table b) = Inr p" "length p = 131072"
    using pack_entries_ok [of "fat_table b"] mi g by (auto simp: main_inv_def)
  have pad: "pad_to_sector 512 p = p"
    using p(2) by (intro pad_to_sector_aligned) simp
  define i1 where "i1 = slice_set (disk_image b) 16384 147456 p"
  define i2 where "i2 = slice_set i1 147456 278528 p"
  have l1: "length i1 = length (disk_image b)"
    unfolding i1_def using le p(2) by (intro length_slice_set_same) simp_all
  have l2: "length i2 = length (disk_image b)"
    unfolding i2_def using le p(2) l1 by (subst length_slice_set_same) simp_all
  have t1: "take 147456 i1 = take 16384 (disk_image b) @ p"
    unfolding i1_def slice_set_def using le p(2) by (simp add: min_def)
  have t2: "take 278528 i2 = take 147456 i1 @ p"
    unfolding i2_def slice_set_def using le l1 p(2) by (simp add: min_def)
  have d1: "drop 278528 i1 = drop 278528 (disk_image b)"
    unfolding i1_def using le p(2) by (intro drop_slice_set_after) simp_all
  have d2: "drop 278528 i2 = drop 278528 i1"
    unfolding i2_def using le l1 p(2) by (intro drop_slice_set_after) simp_all
  have u: "[0..<2::nat] = [0, 1]"
    by (simp add: upt_rec)
  have "write_fat_tables b = Inr (b\<lparr>disk_image := i2\<rparr>)"
    unfolding write_fat_tables_def Let_def using p pad
    by (simp add: g i1_def i2_def u)
  with ok have "b' = b\<lparr>disk_image := i2\<rparr>"
    by simp
  then show ?thesis
    using p l2 t1 t2 d1 d2 by simp
qed

lemma images_agree:
  assumes len: "length I1 = length I2" and hd: "take 278528 I1 = take 278528 I2"
    and tl: "drop 282624 I1 = drop 282624 I2"
    and dir: "agree_off_clock (slice I1 278528 282624) (slice I2 278528 282624)"
    and p: "p < length I1" and ne: "I1 ! p \<noteq> I2 ! (p::nat)"
  shows "278528 \<le> p \<and> p < 282624 \<and> clock_field (p mod 32)"
proof -
  have lo: "278528 \<le> p"
  proof (rule ccontr)
    assume "\<not> 278528 \<le> p"
    then have "I1 ! p = take 278528 I1 ! p" "I2 ! p = take 278528 I2 ! p"
      by simp_all
    with hd ne show False
      by simp
  qed
  have hi: "p < 282624"
  proof (rule ccontr)
    assume "\<not> p < 282624"
    then have q: "p = 282624 + (p - 282624)" "282624 \<le> length I1" "282624 \<le> length I2"
      using p len by simp_all
    have "I1 ! p = drop 282624 I1 ! (p - 282624)" "I2 ! p = drop 282624 I2 ! (p - 282624)"
      using q by (simp_all only: nth_drop)
    with tl ne show False
      by simp
  qed
  have q: "p - 278528 < 4096" "278528 + (p - 278528) = p"
    using lo hi by simp_all
  have n: "slice J 278528 282624 ! (p - 278528) = J ! p" if "p < length J" for J :: "byte list"
    unfolding slice_def using q that lo by simp
  have l: "p - 278528 < length (slice I1 278528 282624)"
    using p q(1) lo by simp
  have m: "(p - 278528) mod 32 = p mod 32"
    using lo by (intro mod32_shift) simp_all
  have "clock_field (p mod 32)"
  proof (rule ccontr)
    assume "\<not> clock_field (p mod 32)"
    then have "\<not> clock_field ((p - 278528) mod 32)"
      using m by simp
    moreover have "\<forall>q < length (slice I1 278528 282624). \<not> clock_field (q mod 32) \<longrightarrow>
        slice I1 278528 282624 ! q = slice I2 278528 282624 ! q"
      using iffD1 [OF agree_off_clock_iff dir] by (rule conjunct2)
    ultimately have "slice I1 278528 282624 ! (p - 278528) = slice I2 278528 282624 ! (p - 278528)"
      using l by blast
    then have "I1 ! p = I2 ! p"
      using n [of I1] n [of I2] p len by simp
    with ne show False
      by simp
  qed
  with lo hi show ?thesis
    by simp
qed

text \<open>The builders of two runs of \<open>main\<close> on the same files, before \<open>write_fat_tables\<close>.\<close>

lemma main_runs:
  assumes r1: "main k1 a1 cn1 rn1 = Inr img1" and r2: "main k2 a2 cn2 rn2 = Inr img2"
    and sk: "same_file k1 k2" and sa: "list_all2 same_file a1 a2"
  shows "\<exists>b6 c6 b7 c7 b8 c8. main_inv b6 \<and> main_inv c6 \<and> same_but_clock b6 c6 \<and>
           add_file_to_directory b6 ''README.TXT'' readme_data rn1 = Inr b7 \<and>
           add_file_to_directory c6 ''README.TXT'' readme_data rn2 = Inr c7 \<and>
           main_inv b7 \<and> main_inv c7 \<and> same_but_clock b7 c7 \<and>
           write_fat_tables b7 = Inr b8 \<and> write_fat_tables c7 = Inr c8 \<and>
           img1 = disk_image b8 \<and> img2 = disk_image c8"
proof -
  from main_setup obtain b where
    m: "\<And>kernel_file additional_files config_now readme_now.
          main kernel_file additional_files config_now readme_now =
            ebind (add_file b kernel_file (Some ''KERNEL.BIN'')) (\<lambda>b4.
            ebind (add_files b4 additional_files) (\<lambda>b5.
            ebind (add_file_to_directory b5 ''CONFIG.TXT'' config_data config_now) (\<lambda>b6.
            ebind (add_file_to_directory b6 ''README.TXT'' readme_data readme_now) (\<lambda>b7.
            ebind (write_fat_tables b7) (\<lambda>b8. Inr (save b8))))))"
    and mi: "main_inv b"
    by blast
  from r1 obtain b4 b5 b6 b7 b8 where
    s: "add_file b k1 (Some ''KERNEL.BIN'') = Inr b4" "add_files b4 a1 = Inr b5"
      "add_file_to_directory b5 ''CONFIG.TXT'' config_data cn1 = Inr b6"
      "add_file_to_directory b6 ''README.TXT'' readme_data rn1 = Inr b7"
      "write_fat_tables b7 = Inr b8" "img1 = save b8"
    unfolding m by (auto simp: ebind_eq_Inr)
  from r2 obtain c4 c5 c6 c7 c8 where
    t: "add_file b k2 (Some ''KERNEL.BIN'') = Inr c4" "add_files c4 a2 = Inr c5"
      "add_file_to_directory c5 ''CONFIG.TXT'' config_data cn2 = Inr c6"
      "add_file_to_directory c6 ''README.TXT'' readme_data rn2 = Inr c7"
      "write_fat_tables c7 = Inr c8" "img2 = save c8"
    unfolding m by (auto simp: ebind_eq_Inr)
  have inv: "builder_inv b"
    using mi by (simp add: main_inv_def)
  have i4: "main_inv b4" "main_inv c4"
    using main_inv_add_file [OF s(1) mi] main_inv_add_file [OF t(1) mi] by simp_all
  have e4: "same_but_clock b4 c4"
    by (rule same_but_clock_add_file [OF s(1) t(1) sk inv inv same_but_clock_refl])
  have i5: "main_inv b5" "main_inv c5"
    using main_inv_add_files [OF s(2) i4(1)] main_inv_add_files [OF t(2) i4(2)] by simp_all
  have e5: "same_but_clock b5 c5"
    by (rule same_but_clock_add_files [OF sa s(2) t(2) i4 e4])
  have i6: "main_inv b6" "main_inv c6"
    by (rule main_inv_add_file_to_directory(1) [OF s(3) i5(1)],
        rule main_inv_add_file_to_directory(1) [OF t(3) i5(2)])
  have v5: "builder_inv b5" "builder_inv c5"
    using i5 by (simp_all add: main_inv_def)
  have e6: "same_but_clock b6 c6"
    by (rule same_but_clock_add_file_to_directory [OF s(3) t(3) v5 e5])
  have i7: "main_inv b7" "main_inv c7"
    by (rule main_inv_add_file_to_directory(1) [OF s(4) i6(1)],
        rule main_inv_add_file_to_directory(1) [OF t(4) i6(2)])
  have v6: "builder_inv b6" "builder_inv c6"
    using i6 by (simp_all add: main_inv_def)
  have e7: "same_but_clock b7 c7"
    by (rule same_but_clock_add_file_to_directory [OF s(4) t(4) v6 e6])
  have "img1 = disk_image b8" "img2 = disk_image c8"
    using s(6) t(6) by (simp_all add: save_def)
  with i6 e6 s(4) t(4) i7 e7 s(5) t(5) show ?thesis
    by blast
qed

lemma same_but_clock_write_fat_tables:
  assumes w1: "write_fat_tables b1 = Inr c1" and w2: "write_fat_tables b2 = Inr c2"
    and m1: "main_inv b1" and m2: "main_inv b2" and sc: "same_but_clock b1 b2"
  shows "length (disk_image c1) = length (disk_image c2)"
    and "take 278528 (disk_image c1) = take 278528 (disk_image c2)"
    and "drop 282624 (disk_image c1) = drop 282624 (disk_image c2)"
    and "agree_off_clock (slice (disk_image c1) 278528 282624) (slice (disk_image c2) 278528 282624)"
proof -
  have ag: "agree_outside_root b1 b2" and da: "agree_off_clock (read_cluster b1 2) (read_cluster b2 2)"
    using sc by (simp_all add: same_but_clock_def)
  have v: "builder_inv b1" "builder_inv b2"
    using m1 m2 by (simp_all add: main_inv_def)
  from write_fat_tables_Inr [OF w1 m1] obtain p where
    p: "pack_entries (fat_table b1) = Inr p"
      "take 278528 (disk_image c1) = take 16384 (disk_image b1) @ p @ p"
      "drop 278528 (disk_image c1) = drop 278528 (disk_image b1)"
      "length (disk_image c1) = length (disk_image b1)"
    by blast
  from write_fat_tables_Inr [OF w2 m2] obtain q where
    q: "pack_entries (fat_table b2) = Inr q"
      "take 278528 (disk_image c2) = take 16384 (disk_image b2) @ q @ q"
      "drop 278528 (disk_image c2) = drop 278528 (disk_image b2)"
      "length (disk_image c2) = length (disk_image b2)"
    by blast
  have qp: "q = p"
    using p(1) q(1) ag by (simp add: agree_outside_root_def)
  show "length (disk_image c1) = length (disk_image c2)"
    using p(4) q(4) ag by (simp add: agree_outside_root_def)
  have "take 16384 (take 278528 (disk_image b1)) = take 16384 (take 278528 (disk_image b2))"
    using ag by (simp only: agree_outside_root_def)
  then have "take 16384 (disk_image b1) = take 16384 (disk_image b2)"
    by simp
  then show "take 278528 (disk_image c1) = take 278528 (disk_image c2)"
    using p(2) q(2) qp by simp
  have d: "drop 282624 I = drop 4096 (drop 278528 I)" for I :: "byte list"
    by simp
  show "drop 282624 (disk_image c1) = drop 282624 (disk_image c2)"
    unfolding d [of "disk_image c1"] d [of "disk_image c2"] p(3) q(3)
    using ag by (simp add: agree_outside_root_def)
  have sl: "slice I 278528 282624 = take 4096 (drop 278528 I)" for I :: "byte list"
    by (simp add: slice_def)
  have "slice (disk_image c1) 278528 282624 = read_cluster b1 2"
    "slice (disk_image c2) 278528 282624 = read_cluster b2 2"
    unfolding read_cluster_root [OF v(1)] read_cluster_root [OF v(2)] sl p(3) q(3) by simp_all
  with da show "agree_off_clock (slice (disk_image c1) 278528 282624) (slice (disk_image c2) 278528 282624)"
    by simp
qed

lemma make_entry_write_time:
  assumes ok: "make_entry fn fc sz now = Inr e"
  shows "int (entry_write_time e) =
         push_bit 11 (int (hour now)) OR push_bit 5 (int (minute now)) OR int (second now div 2)"
proof -
  let ?t = "push_bit 11 (int (hour now)) OR push_bit 5 (int (minute now)) OR int (second now div 2)"
  let ?d = "push_bit 9 (int (year now) - 1980) OR push_bit 5 (int (month now)) OR int (day now)"
  let ?e0 = "(slice_set (zeros 32) 0 11 fn)[11 := 0x20]"
  let ?fs = "[(2, 14, ?t), (2, 16, ?d), (2, 18, ?d), (2, 20, drop_bit 16 (int fc)), (2, 22, ?t),
              (2, 24, ?d), (2, 26, int fc AND 0xFFFF), (4, 28, int sz)]"
  have pf: "pack_fields ?e0 ?fs = Inr e"
    using ok by (simp add: make_entry_def Let_def)
  have rng: "0 \<le> ?t" "?t < 2 ^ 16"
    using pack_fields_in_range [OF pf] by simp_all
  have "slice e 22 24 = le_bytes 2 ?t"
    using pack_fields_slice [of ?e0 "[(2, 14, ?t), (2, 16, ?d), (2, 18, ?d), (2, 20, drop_bit 16 (int fc))]"
        2 22 ?t "[(2, 24, ?d), (2, 26, int fc AND 0xFFFF), (4, 28, int sz)]" e] pf
    by simp
  moreover have "int (le_value (le_bytes 2 ?t)) = ?t"
    using rng by (intro le_value_le_bytes) simp_all
  ultimately show ?thesis
    by (simp only: entry_write_time_def)
qed

text \<open>Two runs whose last clock readings differ in the FAT time write different images.\<close>

lemma main_clock_differs:
  assumes r1: "main k1 a1 cn1 rn1 = Inr img1" and r2: "main k2 a2 cn2 rn2 = Inr img2"
    and sk: "same_file k1 k2" and sa: "list_all2 same_file a1 a2"
    and ne: "push_bit 11 (int (hour rn1)) OR push_bit 5 (int (minute rn1)) OR int (second rn1 div 2) \<noteq>
             push_bit 11 (int (hour rn2)) OR push_bit 5 (int (minute rn2)) OR int (second rn2 div 2)"
  shows "img1 \<noteq> img2"
proof
  assume eq: "img1 = img2"
  from main_runs [OF r1 r2 sk sa] obtain b6 c6 b7 c7 b8 c8 where
    r: "main_inv b6" "main_inv c6" "same_but_clock b6 c6"
      "add_file_to_directory b6 ''README.TXT'' readme_data rn1 = Inr b7"
      "add_file_to_directory c6 ''README.TXT'' readme_data rn2 = Inr c7"
      "main_inv b7" "main_inv c7"
      "write_fat_tables b7 = Inr b8" "write_fat_tables c7 = Inr c8"
      "img1 = disk_image b8" "img2 = disk_image c8"
    by auto
  have v6: "builder_inv b6" "builder_inv c6" and v7: "builder_inv b7" "builder_inv c7"
    using r(1,2,6,7) by (simp_all add: main_inv_def)
  have da: "agree_off_clock (read_cluster b6 2) (read_cluster c6 2)"
    using r(3) by (simp add: same_but_clock_def)
  from add_file_to_directory_entry [OF r(4) v6(1)] obtain i fn e where
    x: "free_slot (read_cluster b6 2) i" "\<forall>j < i. \<not> free_slot (read_cluster b6 2) j"
      "make_entry fn (if readme_data = [] then 0 else next_free_cluster b6) (length readme_data) rn1 = Inr e"
      "slice (read_cluster b7 2) i (i + 32) = e"
    by blast
  from add_file_to_directory_entry [OF r(5) v6(2)] obtain i' fn' e' where
    y: "free_slot (read_cluster c6 2) i'" "\<forall>j < i'. \<not> free_slot (read_cluster c6 2) j"
      "make_entry fn' (if readme_data = [] then 0 else next_free_cluster c6) (length readme_data) rn2 = Inr e'"
      "slice (read_cluster c7 2) i' (i' + 32) = e'"
    by blast
  have "\<not> i < i'" "\<not> i' < i"
    using x(1,2) y(1,2) free_slot_agree [OF da] by auto
  then have ii: "i' = i"
    by simp
  from write_fat_tables_Inr [OF r(8,6)] have d1: "drop 278528 img1 = drop 278528 (disk_image b7)"
    unfolding r(10) by blast
  from write_fat_tables_Inr [OF r(9,7)] have d2: "drop 278528 img2 = drop 278528 (disk_image c7)"
    unfolding r(11) by blast
  have sl: "slice I 278528 282624 = take 4096 (drop 278528 I)" for I :: "byte list"
    by (simp add: slice_def)
  have "read_cluster b7 2 = read_cluster c7 2"
    unfolding read_cluster_root [OF v7(1)] read_cluster_root [OF v7(2)] sl
    using d1 d2 eq by simp
  then have "e = e'"
    using x(4) y(4) ii by simp
  then have "int (entry_write_time e) = int (entry_write_time e')"
    by simp
  then show False
    using ne unfolding make_entry_write_time [OF x(3)] make_entry_write_time [OF y(3)] by simp
qed

lemma now_ok_later: "now_ok later_now"
  by (simp add: now_ok_def later_now_def)

lemma file_ok_runs:
  "file_ok (''build/kernel.bin'', Some [0x7F, 0x45, 0x4C, 0x46], sample_now)"
  "file_ok (''docs/notes.txt'', Some [0x68, 0x69], sample_now)"
  "file_ok (''build/kernel.bin'', Some [0x7F, 0x45, 0x4C, 0x46], later_now)"
  "file_ok (''docs/notes.txt'', Some [0x68, 0x69], later_now)"
  unfolding file_ok_def by (simp_all add: now_ok_sample now_ok_later) code_simp+

lemma two_runs_ok:
  "\<exists>img1 img2.
     main (''build/kernel.bin'', Some [0x7F, 0x45, 0x4C, 0x46], sample_now)
       [(''docs/notes.txt'', Some [0x68, 0x69], sample_now)] sample_now sample_now = Inr img1 \<and>
     main (''build/kernel.bin'', Some [0x7F, 0x45, 0x4C, 0x46], later_now)
       [(''docs/notes.txt'', Some [0x68, 0x69], later_now)] later_now later_now = Inr img2"
proof -
  have c: "file_clusters (''build/kernel.bin'', Some [0x7F, 0x45, 0x4C, 0x46], n)
        + sum_list (map file_clusters [(''docs/notes.txt'', Some [0x68, 0x69], n)]) \<le> 32000" for n
    by (simp add: file_clusters_def payload_clusters_def)
  from main_files_ok [OF now_ok_sample now_ok_sample _ _ c [of sample_now]]
  obtain img1 where "main (''build/kernel.bin'', Some [0x7F, 0x45, 0x4C, 0x46], sample_now)
       [(''docs/notes.txt'', Some [0x68, 0x69], sample_now)] sample_now sample_now = Inr img1"
    using file_ok_runs by auto
  moreover from main_files_ok [OF now_ok_later now_ok_later _ _ c [of later_now]]
  obtain img2 where "main (''build/kernel.bin'', Some [0x7F, 0x45, 0x4C, 0x46], later_now)
       [(''docs/notes.txt'', Some [0x68, 0x69], later_now)] later_now later_now = Inr img2"
    using file_ok_runs by auto
  ultimately show ?thesis
    by blast
qed

lemma same_file_runs:
  "same_file (''build/kernel.bin'', Some [0x7F, 0x45, 0x4C, 0x46], sample_now)
     (''build/kernel.bin'', Some [0x7F, 0x45, 0x4C, 0x46], later_now)"
  "list_all2 same_file [(''docs/notes.txt'', Some [0x68, 0x69], sample_now)]
     [(''docs/notes.txt'', Some [0x68, 0x69], later_now)]"
  by (simp_all add: same_file_def)

text \<open>
  C3 as stated fails for build\_disk.py: the same kernel and the same additional file,
  built at two times, give two different images.
\<close>

theorem build_not_deterministic:
  "\<exists>img1 img2.
     main (''build/kernel.bin'', Some [0x7F, 0x45, 0x4C, 0x46], sample_now)
       [(''docs/notes.txt'', Some [0x68, 0x69], sample_now)] sample_now sample_now = Inr img1 \<and>
     main (''build/kernel.bin'', Some [0x7F, 0x45, 0x4C, 0x46], later_now)
       [(''docs/notes.txt'', Some [0x68, 0x69], later_now)] later_now later_now = Inr img2 \<and>
     img1 \<noteq> img2"
proof -
  from two_runs_ok obtain img1 img2 where
    r: "main (''build/kernel.bin'', Some [0x7F, 0x45, 0x4C, 0x46], sample_now)
       [(''docs/notes.txt'', Some [0x68, 0x69], sample_now)] sample_now sample_now = Inr img1"
     "main (''build/kernel.bin'', Some [0x7F, 0x45, 0x4C, 0x46], later_now)
       [(''docs/notes.txt'', Some [0x68, 0x69], later_now)] later_now later_now = Inr img2"
    by blast
  have "push_bit 11 (int (hour sample_now)) OR push_bit 5 (int (minute sample_now))
          OR int (second sample_now div 2) \<noteq>
        push_bit 11 (int (hour later_now)) OR push_bit 5 (int (minute later_now))
          OR int (second later_now div 2)"
    by (simp add: sample_now_def later_now_def)
  from main_clock_differs [OF r same_file_runs this] r show ?thesis
    by blast
qed

text \<open>Two runs on the same files differ in time and date fields of the root directory only.\<close>

lemma main_same_up_to_clock:
  assumes "main kernel_file1 additional_files1 config_now1 readme_now1 = Inr img1"
    and "main kernel_file2 additional_files2 config_now2 readme_now2 = Inr img2"
    and "same_file kernel_file1 kernel_file2"
    and "list_all2 same_file additional_files1 additional_files2"
  shows "length img1 = length img2 \<and>
         (\<forall>p < length img1. img1 ! p \<noteq> img2 ! p \<longrightarrow>
            278528 \<le> p \<and> p < 282624 \<and> clock_field (p mod 32))"
proof -
  from main_runs [OF assms] obtain b1 b2 c1 c2 where
    r: "main_inv b1" "main_inv b2" "same_but_clock b1 b2"
      "write_fat_tables b1 = Inr c1" "write_fat_tables b2 = Inr c2"
      "img1 = disk_image c1" "img2 = disk_image c2"
    by auto
  note w = same_but_clock_write_fat_tables [OF r(4,5,1,2,3)]
  show ?thesis
    unfolding r(6,7) using w(1) images_agree [OF w] by blast
qed

text \<open>
  The entries of create\_disk\_fixed.py have constant times and dates: no clock is read.
\<close>

lemma create_directory_entry_times:
  assumes "create_directory_entry name attr cluster sz = Inr e"
  shows "slice e 14 20 = [0x00, 0x00, 0x21, 0x00, 0x21, 0x00]"
    and "slice e 22 26 = [0x00, 0x00, 0x21, 0x00]"
proof -
  from assms obtain enc where enc: "encode_ascii (ljust 11 name) = Inr enc"
    by (auto simp: create_directory_entry_def ebind_eq_Inr)
  have "11 \<le> length enc"
    using length_encode_ascii [OF enc] by (simp add: ljust_def)
  then have l0: "length (slice_set (zeros 32) 0 11 (take 11 enc)) = 32"
    by (simp add: length_slice_set)
  define a where "a = ((slice_set (zeros 32) 0 11 (take 11 enc))[11 := attr])[12 := 0, 13 := 0]"
  have la: "length a = 32"
    using l0 by (simp add: a_def)
  define e0 where "e0 = slice_set (slice_set (slice_set a 14 16 [0x00, 0x00]) 16 18 [0x21, 0x00]) 18 20 [0x21, 0x00]"
  have le0: "length e0 = 32"
    using la by (simp add: e0_def length_slice_set)
  have s0: "slice e0 14 20 = [0x00, 0x00, 0x21, 0x00, 0x21, 0x00]"
    using la by (simp add: e0_def slice_def slice_set_def min_def)
  from assms enc obtain e1 e2 where
    p: "pack_into 2 e0 20 (drop_bit 16 (int cluster) AND 0xFFFF) = Inr e1"
      "pack_into 2 (slice_set (slice_set e1 22 24 [0x00, 0x00]) 24 26 [0x21, 0x00]) 26
         (int cluster AND 0xFFFF) = Inr e2"
      "pack_into 4 e2 28 (int sz) = Inr e"
    by (auto simp: create_directory_entry_def Let_def ebind_eq_Inr e0_def a_def)
  define m where "m = slice_set (slice_set e1 22 24 [0x00, 0x00]) 24 26 [0x21, 0x00]"
  have l1: "length e1 = 32"
    using pack_into_length [OF p(1)] le0 by simp
  have lm: "length m = 32"
    using l1 by (simp add: m_def length_slice_set)
  have l2: "length e2 = 32"
    using pack_into_length [OF p(2)] lm by (simp add: m_def)
  have x1: "e1 = slice_set e0 20 (20 + 2) (le_bytes 2 (drop_bit 16 (int cluster) AND 0xFFFF))"
    using pack_into_Inr [OF p(1)] by simp
  have x2: "e2 = slice_set m 26 (26 + 2) (le_bytes 2 (int cluster AND 0xFFFF))"
    using pack_into_Inr [OF p(2)] by (simp add: m_def)
  have x3: "e = slice_set e2 28 (28 + 4) (le_bytes 4 (int sz))"
    using pack_into_Inr [OF p(3)] by simp
  have k: "slice e k l = slice m k l" if "l \<le> 26" for k l
    unfolding x3 x2 using that l2 lm
    by (simp add: slice_slice_set_before flip: x2)
  have s1: "slice e1 14 20 = slice e0 14 20"
    unfolding x1 using le0 by (simp add: slice_slice_set_before)
  have "slice m 14 20 = slice e1 14 20"
    unfolding m_def using l1 by (simp add: slice_slice_set_before length_slice_set)
  then show "slice e 14 20 = [0x00, 0x00, 0x21, 0x00, 0x21, 0x00]"
    using k [of 20 14] s1 s0 by simp
  have "slice m 22 26 = [0x00, 0x00, 0x21, 0x00]"
    using l1 by (simp add: m_def slice_def slice_set_def min_def)
  then show "slice e 22 26 = [0x00, 0x00, 0x21, 0x00]"
    using k [of 26 22] by simp
qed

text \<open>
  C3 (amended). Two runs of build\_disk.py on the same geometry and the same ordered list
  of files, paths and contents, started at any times, write images of the same length
  that are byte-identical outside the time and date fields of the root directory's entries:
  a differing byte lies in the root directory cluster (bytes 278528 to 282623) at an offset
  14 to 19 or 22 to 25 of its 32-byte entry, where \<open>add_file_to_directory\<close> stores
  \<open>datetime.now()\<close>. Every entry that \<open>create_directory_entry\<close> of create\_disk\_fixed.py
  makes has the same constant bytes in these fields.
\<close>

theorem build_same_up_to_clock:
  "(main kernel_file1 additional_files1 config_now1 readme_now1 = Inr img1 \<and>
    main kernel_file2 additional_files2 config_now2 readme_now2 = Inr img2 \<and>
    same_file kernel_file1 kernel_file2 \<and>
    list_all2 same_file additional_files1 additional_files2 \<longrightarrow>
      length img1 = length img2 \<and>
      (\<forall>p < length img1. img1 ! p \<noteq> img2 ! p \<longrightarrow>
         278528 \<le> p \<and> p < 282624 \<and> clock_field (p mod 32))) \<and>
   (create_directory_entry name attr cluster sz = Inr e \<longrightarrow>
      slice e 14 20 = [0x00, 0x00, 0x21, 0x00, 0x21, 0x00] \<and>
      slice e 22 26 = [0x00, 0x00, 0x21, 0x00])"
  using main_same_up_to_clock [of kernel_file1 additional_files1 config_now1 readme_now1 img1
      kernel_file2 additional_files2 config_now2 readme_now2 img2]
    create_directory_entry_times [of name attr cluster sz e]
  by blast

theorem build_same_up_to_clock_witness:
  "\<exists>img1 img2 e.
     main (''build/kernel.bin'', Some [0x7F, 0x45, 0x4C, 0x46], sample_now)
       [(''docs/notes.txt'', Some [0x68, 0x69], sample_now)] sample_now sample_now = Inr img1 \<and>
     main (''build/kernel.bin'', Some [0x7F, 0x45, 0x4C, 0x46], later_now)
       [(''docs/notes.txt'', Some [0x68, 0x69], later_now)] later_now later_now = Inr img2 \<and>
     same_file (''build/kernel.bin'', Some [0x7F, 0x45, 0x4C, 0x46], sample_now)
       (''build/kernel.bin'', Some [0x7F, 0x45, 0x4C, 0x46], later_now) \<and>
     list_all2 same_file [(''docs/notes.txt'', Some [0x68, 0x69], sample_now)]
       [(''docs/notes.txt'', Some [0x68, 0x69], later_now)] \<and>
     length img1 = length img2 \<and>
     (\<forall>p < length img1. img1 ! p \<noteq> img2 ! p \<longrightarrow>
        278528 \<le> p \<and> p < 282624 \<and> clock_field (p mod 32)) \<and>
     create_directory_entry ''INIT       '' DIR_ATTR 3 0 = Inr e \<and>
     slice e 14 20 = [0x00, 0x00, 0x21, 0x00, 0x21, 0x00] \<and>
     slice e 22 26 = [0x00, 0x00, 0x21, 0x00]"
proof -
  from two_runs_ok obtain img1 img2 where
    r: "main (''build/kernel.bin'', Some [0x7F, 0x45, 0x4C, 0x46], sample_now)
       [(''docs/notes.txt'', Some [0x68, 0x69], sample_now)] sample_now sample_now = Inr img1"
     "main (''build/kernel.bin'', Some [0x7F, 0x45, 0x4C, 0x46], later_now)
       [(''docs/notes.txt'', Some [0x68, 0x69], later_now)] later_now later_now = Inr img2"
    by blast
  obtain e where e: "create_directory_entry ''INIT       '' DIR_ATTR 3 0 = Inr e"
    using create_directory_entry_ok [OF ascii_names(3), of 0 DIR_ATTR 3] by auto
  from build_same_up_to_clock [of "(''build/kernel.bin'', Some [0x7F, 0x45, 0x4C, 0x46], sample_now)"
      "[(''docs/notes.txt'', Some [0x68, 0x69], sample_now)]" sample_now sample_now img1
      "(''build/kernel.bin'', Some [0x7F, 0x45, 0x4C, 0x46], later_now)"
      "[(''docs/notes.txt'', Some [0x68, 0x69], later_now)]" later_now later_now img2
      "''INIT       ''" DIR_ATTR 3 0 e] r same_file_runs e
  show ?thesis
    by blast
qed

subsection \<open>Geometry\<close>

text \<open>
  C9. For the fixed 32 MiB geometry the hardcoded sectors-per-FAT value of each variant
  (256 in build\_disk.py, 160 in create\_disk\_fixed.py) is at least
  \<open>ceil(dataClusters * 4 / bytesPerSector)\<close>: one 32-bit FAT entry fits for every
  addressable data cluster.
\<close>

theorem sectors_per_fat_sufficient:
  "sectors_per_fat (Fat32DiskBuilder 32) = 256 \<and>
   fat_sectors_needed
     (data_clusters (total_sectors (Fat32DiskBuilder 32)) (data_start_sector (Fat32DiskBuilder 32))
        (sectors_per_cluster (Fat32DiskBuilder 32)))
     (sector_size (Fat32DiskBuilder 32)) \<le> sectors_per_fat (Fat32DiskBuilder 32) \<and>
   fat_size = 160 \<and>
   fat_sectors_needed
     (data_clusters ((DISK_SIZE_MB * 1024 * 1024) div BYTES_PER_SECTOR)
        (RESERVED_SECTORS + NUM_FATS * fat_size) SECTORS_PER_CLUSTER)
     BYTES_PER_SECTOR \<le> fat_size"
  by (simp add: Fat32DiskBuilder_def fat_sectors_needed_def data_clusters_def fat_size_def
      DISK_SIZE_MB_def BYTES_PER_SECTOR_def RESERVED_SECTORS_def NUM_FATS_def SECTORS_PER_CLUSTER_def)


end
